theory Spec2Isabelle
  imports Main "HOL-Library.Word"
begin

unbundle bit_operations_syntax

section \<open>The eCryptfs extent engine of read\_write.c\<close>

text \<open>
  A shallow embedding of \<^verbatim>\<open>gaes/ecryptfs_4.7_kocl/read_write.c\<close>: the sequential
  write \<^verbatim>\<open>ecryptfs_write\<close>, the batched write \<^verbatim>\<open>ecryptfs_write2\<close>, the batched
  read \<^verbatim>\<open>ecryptfs_read2\<close> and the lower-file helpers they call.

  Conventions.
  \<^item> File positions, lengths and page indices (\<^verbatim>\<open>loff_t\<close>, \<^verbatim>\<open>size_t\<close>, \<^verbatim>\<open>pgoff_t\<close>) are
    natural numbers: the model covers requests whose arithmetic does not wrap, which is
    what the VFS hands down. Return codes are integers, negative for an error.
  \<^item> The inode, its page cache and its lower file are one record that every function
    takes and returns updated.
  \<^item> A page of the cache is named by its index; the array \<^verbatim>\<open>pgs\<close> of page pointers is a
    list of slots holding such indices.
  \<^item> What the kernel and the rest of eCryptfs answer (a pending signal, a failed page
    lookup, the status of an encryption) is read from a record of oracles. Within one walk
    every iteration runs at its own position, so an oracle indexed by the position answers
    each call on its own.
  \<^item> A store through a null pointer or an access outside an array or a mapped page is the
    result \<open>Inl\<close> of a fault.
\<close>

subsection \<open>Pages, the inode and the environment\<close>

text \<open>Modelled from the spec: the page size, a macro of the kernel headers
  (``typically 4096 bytes'').\<close>

definition PAGE_SHIFT :: nat where
  "PAGE_SHIFT = 12"

definition PAGE_SIZE :: nat where
  "PAGE_SIZE = 2 ^ PAGE_SHIFT"

type_synonym byte = "8 word"

datatype errno = EINTR | EIO | ENOMEM | EFAULT

fun errno_val :: "errno \<Rightarrow> int" where
  "errno_val EINTR = 4"
| "errno_val EIO = 5"
| "errno_val ENOMEM = 12"
| "errno_val EFAULT = 14"

datatype fault = NullDereference | OutOfBounds | Uninitialised

record page =
  contents :: "nat \<Rightarrow> byte"
  PageUptodate :: bool
  PageLocked :: bool
  page_count :: nat

record ecryptfs_inode =
  i_size :: nat
  ECRYPTFS_ENCRYPTED :: bool
  ECRYPTFS_VIEW_AS_ENCRYPTED :: bool
  lower_file :: bool
  i_mapping :: "nat \<Rightarrow> page"
  lower_bytes :: "nat \<Rightarrow> byte"
  accessed :: bool

text \<open>\<open>lower_file\<close> says whether the inode has a lower file (the pointer is not null);
  \<open>lower_bytes\<close> is what the lower file holds once read (and, for an encrypted file,
  decrypted); \<open>accessed\<close> records \<^verbatim>\<open>file_accessed\<close>.\<close>

datatype page_ptr = PagePtr | NullPtr | ErrPtr errno

record env =
  fatal_signal_pending :: "nat \<Rightarrow> bool"
  get_locked_page_err :: "nat \<Rightarrow> errno option"
  write_begin_page :: "nat \<Rightarrow> page_ptr"
  encrypt_page_rc :: "nat \<Rightarrow> int"
  kernel_write_err :: "nat \<Rightarrow> errno option"
  size_to_metadata_rc :: int
  kmalloc_fails :: bool
  encrypt_pages2_rc :: int
  decrypt_pages_rc :: int
  grab_cache_page_fails :: "nat \<Rightarrow> bool"
  readpage_rc :: "nat \<Rightarrow> int"

definition upd_page :: "ecryptfs_inode \<Rightarrow> nat \<Rightarrow> (page \<Rightarrow> page) \<Rightarrow> ecryptfs_inode" where
  "upd_page s idx f = s\<lparr>i_mapping := (i_mapping s)(idx := f (i_mapping s idx))\<rparr>"

definition lock_page :: "ecryptfs_inode \<Rightarrow> nat \<Rightarrow> ecryptfs_inode" where
  "lock_page s idx = upd_page s idx (\<lambda>p. p\<lparr>PageLocked := True\<rparr>)"

definition unlock_page :: "ecryptfs_inode \<Rightarrow> nat \<Rightarrow> ecryptfs_inode" where
  "unlock_page s idx = upd_page s idx (\<lambda>p. p\<lparr>PageLocked := False\<rparr>)"

definition get_page :: "ecryptfs_inode \<Rightarrow> nat \<Rightarrow> ecryptfs_inode" where
  "get_page s idx = upd_page s idx (\<lambda>p. p\<lparr>page_count := page_count p + 1\<rparr>)"

definition put_page :: "ecryptfs_inode \<Rightarrow> nat \<Rightarrow> ecryptfs_inode" where
  "put_page s idx = upd_page s idx (\<lambda>p. p\<lparr>page_count := page_count p - 1\<rparr>)"

definition SetPageUptodate :: "ecryptfs_inode \<Rightarrow> nat \<Rightarrow> ecryptfs_inode" where
  "SetPageUptodate s idx = upd_page s idx (\<lambda>p. p\<lparr>PageUptodate := True\<rparr>)"

definition ClearPageUptodate :: "ecryptfs_inode \<Rightarrow> nat \<Rightarrow> ecryptfs_inode" where
  "ClearPageUptodate s idx = upd_page s idx (\<lambda>p. p\<lparr>PageUptodate := False\<rparr>)"

text \<open>\<^verbatim>\<open>memset(virt + start, 0, n)\<close> and \<^verbatim>\<open>memcpy(virt + start, data + data_offset, n)\<close>
  on the mapped page \<open>idx\<close>.\<close>

definition memset_page :: "ecryptfs_inode \<Rightarrow> nat \<Rightarrow> nat \<Rightarrow> nat \<Rightarrow> ecryptfs_inode" where
  "memset_page s idx start n =
     upd_page s idx (\<lambda>p. p\<lparr>contents := (\<lambda>k. if start \<le> k \<and> k < start + n then 0 else contents p k)\<rparr>)"

definition memcpy_page ::
  "ecryptfs_inode \<Rightarrow> nat \<Rightarrow> nat \<Rightarrow> (nat \<Rightarrow> byte) \<Rightarrow> nat \<Rightarrow> nat \<Rightarrow> ecryptfs_inode" where
  "memcpy_page s idx start data data_offset n =
     upd_page s idx (\<lambda>p. p\<lparr>contents :=
       (\<lambda>k. if start \<le> k \<and> k < start + n then data (data_offset + (k - start)) else contents p k)\<rparr>)"

text \<open>The page \<open>idx\<close> filled from the lower file, and the page \<open>idx\<close> stored to it.\<close>

definition fill_page :: "ecryptfs_inode \<Rightarrow> nat \<Rightarrow> ecryptfs_inode" where
  "fill_page s idx =
     upd_page s idx (\<lambda>p. p\<lparr>contents := (\<lambda>k. lower_bytes s (idx * PAGE_SIZE + k))\<rparr>)"

definition store_page :: "ecryptfs_inode \<Rightarrow> nat \<Rightarrow> ecryptfs_inode" where
  "store_page s idx =
     s\<lparr>lower_bytes := (\<lambda>p. if drop_bit PAGE_SHIFT p = idx
                              then contents (i_mapping s idx) (take_bit PAGE_SHIFT p)
                              else lower_bytes s p)\<rparr>"

subsection \<open>The collaborators outside read\_write.c\<close>

text \<open>Modelled from the spec: \<^verbatim>\<open>ecryptfs_get_locked_page\<close> of mmap.c, the spec's
  \<^verbatim>\<open>acquireAndFillLocked\<close>: the page of the cache at the index, filled from the lower file
  when it is not up to date, with a reference taken and locked; or an error pointer.\<close>

definition ecryptfs_get_locked_page ::
  "env \<Rightarrow> nat \<Rightarrow> ecryptfs_inode \<Rightarrow> nat \<Rightarrow> errno + ecryptfs_inode" where
  "ecryptfs_get_locked_page e pos s idx =
     (case get_locked_page_err e pos of
        Some err \<Rightarrow> Inl err
      | None \<Rightarrow>
          Inr (lock_page (get_page
                 (if PageUptodate (i_mapping s idx) then s
                  else SetPageUptodate (fill_page s idx) idx) idx) idx))"

text \<open>Modelled from the spec: \<^verbatim>\<open>ecryptfs_encrypt_page\<close> of crypto.c, the spec's
  \<^verbatim>\<open>encryptPage\<close>: on success the whole page is persisted so that decrypting it recovers
  the plaintext exactly; on failure nothing is persisted.\<close>

definition ecryptfs_encrypt_page ::
  "env \<Rightarrow> nat \<Rightarrow> ecryptfs_inode \<Rightarrow> nat \<Rightarrow> int \<times> ecryptfs_inode" where
  "ecryptfs_encrypt_page e pos s idx =
     (let rc = encrypt_page_rc e pos in (rc, if rc = 0 then store_page s idx else s))"

text \<open>\<^verbatim>\<open>kernel_write(lower_file, data, size, offset)\<close> with \<open>data\<close> the address the page
  \<open>idx\<close> is mapped at: it returns the byte count, or a negative error and writes nothing.
  More than a page cannot be read from that address.\<close>

definition kernel_write ::
  "env \<Rightarrow> nat \<Rightarrow> ecryptfs_inode \<Rightarrow> nat \<Rightarrow> nat \<Rightarrow> nat \<Rightarrow> fault + int \<times> ecryptfs_inode" where
  "kernel_write e pos s idx offset sz =
     (if PAGE_SIZE < sz then Inl OutOfBounds
      else case kernel_write_err e pos of
             Some err \<Rightarrow> Inr (- errno_val err, s)
           | None \<Rightarrow>
               Inr (int sz,
                    s\<lparr>lower_bytes := (\<lambda>p. if offset \<le> p \<and> p < offset + sz
                                             then contents (i_mapping s idx) (p - offset)
                                             else lower_bytes s p)\<rparr>))"

subsection \<open>Writing to the lower file\<close>

definition ecryptfs_write_lower ::
  "env \<Rightarrow> nat \<Rightarrow> ecryptfs_inode \<Rightarrow> nat \<Rightarrow> nat \<Rightarrow> nat \<Rightarrow> fault + int \<times> ecryptfs_inode" where
  "ecryptfs_write_lower e pos s idx offset sz =
     (if lower_file s then kernel_write e pos s idx offset sz
      else Inr (- errno_val EIO, s))"

definition ecryptfs_write_lower_page_segment ::
  "env \<Rightarrow> nat \<Rightarrow> ecryptfs_inode \<Rightarrow> nat \<Rightarrow> nat \<Rightarrow> nat \<Rightarrow> fault + int \<times> ecryptfs_inode" where
  "ecryptfs_write_lower_page_segment e pos s page_for_lower offset_in_page sz =
     (let offset = push_bit PAGE_SHIFT page_for_lower + offset_in_page in
      case ecryptfs_write_lower e pos s page_for_lower offset sz of
        Inl f \<Rightarrow> Inl f
      | Inr (rc, s') \<Rightarrow> Inr (if 0 < rc then 0 else rc, s'))"

subsection \<open>The sequential write\<close>

datatype step = Break int | Goto_out int ecryptfs_inode | Next nat nat ecryptfs_inode

text \<open>One iteration of the loop of \<^verbatim>\<open>ecryptfs_write\<close>: \<open>Break\<close> leaves the loop for the
  code after it, \<open>Goto_out\<close> jumps to the label \<^verbatim>\<open>out\<close>, \<open>Next\<close> carries the new \<^verbatim>\<open>pos\<close> and
  \<^verbatim>\<open>data_offset\<close> into the next iteration.\<close>

definition ecryptfs_write_step ::
  "env \<Rightarrow> (nat \<Rightarrow> byte) \<Rightarrow> nat \<Rightarrow> nat \<Rightarrow> nat \<Rightarrow> nat \<Rightarrow> ecryptfs_inode \<Rightarrow> fault + step" where
  "ecryptfs_write_step e data offset sz pos data_offset s =
     (let ecryptfs_page_idx = drop_bit PAGE_SHIFT pos;
          start_offset_in_page = take_bit PAGE_SHIFT pos;
          num_bytes = PAGE_SIZE - start_offset_in_page;
          total_remaining_bytes = (offset + sz) - pos
      in if fatal_signal_pending e pos then Inr (Break (- errno_val EINTR))
         else
           let num_bytes = (if total_remaining_bytes < num_bytes
                            then total_remaining_bytes else num_bytes);
               num_bytes = (if pos < offset
                            then (let total_remaining_zeros = offset - pos
                                  in if total_remaining_zeros < num_bytes
                                     then total_remaining_zeros else num_bytes)
                            else num_bytes)
           in case ecryptfs_get_locked_page e pos s ecryptfs_page_idx of
                Inl err \<Rightarrow> Inr (Goto_out (- errno_val err) s)
              | Inr s1 \<Rightarrow>
                  let s2 = (if pos < offset \<or> start_offset_in_page = 0
                            then memset_page s1 ecryptfs_page_idx start_offset_in_page
                                   (PAGE_SIZE - start_offset_in_page)
                            else s1);
                      s3 = (if offset \<le> pos
                            then memcpy_page s2 ecryptfs_page_idx start_offset_in_page
                                   data data_offset num_bytes
                            else s2);
                      data_offset' = (if offset \<le> pos then data_offset + num_bytes
                                      else data_offset);
                      s4 = unlock_page (SetPageUptodate s3 ecryptfs_page_idx) ecryptfs_page_idx
                  in case (if ECRYPTFS_ENCRYPTED s4
                           then Inr (ecryptfs_encrypt_page e pos s4 ecryptfs_page_idx)
                           else ecryptfs_write_lower_page_segment e pos s4 ecryptfs_page_idx
                                  start_offset_in_page data_offset') of
                       Inl f \<Rightarrow> Inl f
                     | Inr (rc, s5) \<Rightarrow>
                         let s6 = put_page s5 ecryptfs_page_idx
                         in if rc \<noteq> 0 then Inr (Goto_out rc s6)
                            else Inr (Next (pos + num_bytes) data_offset' s6))"

datatype loop_exit = Fallthrough | Jumped_out

function ecryptfs_write_loop ::
  "env \<Rightarrow> (nat \<Rightarrow> byte) \<Rightarrow> nat \<Rightarrow> nat \<Rightarrow> nat \<Rightarrow> nat \<Rightarrow> int \<Rightarrow> ecryptfs_inode
     \<Rightarrow> fault + loop_exit \<times> int \<times> nat \<times> ecryptfs_inode" where
  "ecryptfs_write_loop e data offset sz pos data_offset rc s =
     (if pos < offset + sz
      then (case ecryptfs_write_step e data offset sz pos data_offset s of
              Inl f \<Rightarrow> Inl f
            | Inr (Break rc') \<Rightarrow> Inr (Fallthrough, rc', pos, s)
            | Inr (Goto_out rc' s') \<Rightarrow> Inr (Jumped_out, rc', pos, s')
            | Inr (Next pos' data_offset' s') \<Rightarrow>
                ecryptfs_write_loop e data offset sz pos' data_offset' 0 s')
      else Inr (Fallthrough, rc, pos, s))"
  by pat_completeness auto
termination
proof (relation "measure (\<lambda>(e, data, offset, sz, pos, data_offset, rc, s). offset + sz - pos)")
  show "wf (measure (\<lambda>(e, data, offset, sz, pos, data_offset, rc, s). offset + sz - pos))"
    by simp
next
  fix e data offset sz pos data_offset and rc :: int and s st pos' d' s'
  assume run: "pos < offset + sz"
    and st: "ecryptfs_write_step e data offset sz pos data_offset s = Inr st"
            "st = Next pos' d' s'"
  have "take_bit PAGE_SHIFT pos < PAGE_SIZE"
    by (simp add: PAGE_SIZE_def take_bit_eq_mod)
  with run st have "pos < pos'"
    by (auto simp: ecryptfs_write_step_def Let_def
             split: if_splits sum.splits prod.splits)
  with run
  show "((e, data, offset, sz, pos', d', 0, s'), (e, data, offset, sz, pos, data_offset, rc, s))
          \<in> measure (\<lambda>(e, data, offset, sz, pos, data_offset, rc, s). offset + sz - pos)"
    by simp
qed

definition ecryptfs_write ::
  "env \<Rightarrow> ecryptfs_inode \<Rightarrow> (nat \<Rightarrow> byte) \<Rightarrow> nat \<Rightarrow> nat \<Rightarrow> fault + int \<times> ecryptfs_inode" where
  "ecryptfs_write e s data offset sz =
     (let ecryptfs_file_size = i_size s;
          pos = (if ecryptfs_file_size < offset then ecryptfs_file_size else offset)
      in case ecryptfs_write_loop e data offset sz pos 0 0 s of
           Inl f \<Rightarrow> Inl f
         | Inr (Jumped_out, rc, pos', s') \<Rightarrow> Inr (rc, s')
         | Inr (Fallthrough, rc, pos', s') \<Rightarrow>
             if ecryptfs_file_size < pos'
             then (let s'' = s'\<lparr>i_size := pos'\<rparr>
                   in if ECRYPTFS_ENCRYPTED s''
                      then (let rc2 = size_to_metadata_rc e
                            in if rc2 \<noteq> 0 then Inr (if rc = 0 then rc2 else rc, s'')
                               else Inr (rc, s''))
                      else Inr (rc, s''))
             else Inr (rc, s'))"

subsection \<open>The batched write\<close>

text \<open>\<^verbatim>\<open>grab_cache_page_write_begin\<close> of the kernel: the page of the cache at the index,
  with a reference taken and locked, not filled; or the pointer the kernel answers
  instead, which the caller tests with \<^verbatim>\<open>IS_ERR\<close> only.\<close>

definition grab_cache_page_write_begin ::
  "env \<Rightarrow> nat \<Rightarrow> ecryptfs_inode \<Rightarrow> nat \<Rightarrow> page_ptr \<times> ecryptfs_inode" where
  "grab_cache_page_write_begin e pos s idx =
     (case write_begin_page e pos of
        PagePtr \<Rightarrow> (PagePtr, lock_page (get_page s idx) idx)
      | NullPtr \<Rightarrow> (NullPtr, s)
      | ErrPtr err \<Rightarrow> (ErrPtr err, s))"

text \<open>The slots \<open>0 ..< n\<close> of an array of page pointers, read by a collaborator.\<close>

definition batch_pages :: "nat option list \<Rightarrow> nat \<Rightarrow> fault + nat list" where
  "batch_pages pgs n =
     (if length pgs < n then Inl OutOfBounds
      else case those (take n pgs) of
             None \<Rightarrow> Inl Uninitialised
           | Some idxs \<Rightarrow> Inr idxs)"

text \<open>Modelled from the spec: \<^verbatim>\<open>ecryptfs_encrypt_pages2\<close>, the spec's \<^verbatim>\<open>encryptPages\<close>:
  one status for the batch; on success every page of the batch is persisted, on failure
  nothing is.\<close>

definition ecryptfs_encrypt_pages2 ::
  "env \<Rightarrow> ecryptfs_inode \<Rightarrow> nat option list \<Rightarrow> nat \<Rightarrow> fault + int \<times> ecryptfs_inode" where
  "ecryptfs_encrypt_pages2 e s pgs nrpgs =
     (case batch_pages pgs nrpgs of
        Inl f \<Rightarrow> Inl f
      | Inr idxs \<Rightarrow>
          (let rc = encrypt_pages2_rc e
           in Inr (rc, if rc = 0 then foldl store_page s idxs else s)))"

datatype step2 =
  Goto_out2 int ecryptfs_inode
| Next2 nat nat "nat option list" nat ecryptfs_inode

text \<open>One iteration of the loop of \<^verbatim>\<open>ecryptfs_write2\<close>; \<open>Next2\<close> carries \<^verbatim>\<open>pos\<close>,
  \<^verbatim>\<open>data_offset\<close>, the array \<^verbatim>\<open>pgs\<close> and its cursor \<^verbatim>\<open>i\<close>.\<close>

definition ecryptfs_write2_step ::
  "env \<Rightarrow> (nat \<Rightarrow> byte) \<Rightarrow> nat \<Rightarrow> nat \<Rightarrow> nat \<Rightarrow> nat \<Rightarrow> nat option list \<Rightarrow> nat
     \<Rightarrow> ecryptfs_inode \<Rightarrow> fault + step2" where
  "ecryptfs_write2_step e data offset sz pos data_offset pgs i s =
     (let ecryptfs_page_idx = drop_bit PAGE_SHIFT pos;
          start_offset_in_page = take_bit PAGE_SHIFT pos;
          num_bytes = PAGE_SIZE - start_offset_in_page;
          total_remaining_bytes = (offset + sz) - pos;
          num_bytes = (if total_remaining_bytes < num_bytes
                       then total_remaining_bytes else num_bytes);
          num_bytes = (if pos < offset
                       then (let total_remaining_zeros = offset - pos
                             in if total_remaining_zeros < num_bytes
                                then total_remaining_zeros else num_bytes)
                       else num_bytes)
      in case grab_cache_page_write_begin e pos s ecryptfs_page_idx of
           (ErrPtr err, s1) \<Rightarrow> Inr (Goto_out2 (- errno_val err) s1)
         | (NullPtr, s1) \<Rightarrow> Inl NullDereference
         | (PagePtr, s1) \<Rightarrow>
             let s2 = (if pos < offset \<or> start_offset_in_page = 0
                       then memset_page s1 ecryptfs_page_idx start_offset_in_page
                              (PAGE_SIZE - start_offset_in_page)
                       else s1);
                 s3 = (if offset \<le> pos
                       then memcpy_page s2 ecryptfs_page_idx start_offset_in_page
                              data data_offset num_bytes
                       else s2);
                 data_offset' = (if offset \<le> pos then data_offset + num_bytes
                                 else data_offset);
                 s4 = unlock_page (SetPageUptodate s3 ecryptfs_page_idx) ecryptfs_page_idx
             in if ECRYPTFS_ENCRYPTED s4
                then (if i < length pgs
                      then Inr (Next2 (pos + num_bytes) data_offset'
                                  (pgs[i := Some ecryptfs_page_idx]) (i + 1) s4)
                      else Inl OutOfBounds)
                else (case ecryptfs_write_lower_page_segment e pos s4 ecryptfs_page_idx
                             start_offset_in_page data_offset' of
                        Inl f \<Rightarrow> Inl f
                      | Inr (rc, s5) \<Rightarrow>
                          let s6 = put_page s5 ecryptfs_page_idx
                          in if rc \<noteq> 0 then Inr (Goto_out2 rc s6)
                             else Inr (Next2 (pos + num_bytes) data_offset' pgs i s6)))"

function ecryptfs_write2_loop ::
  "env \<Rightarrow> (nat \<Rightarrow> byte) \<Rightarrow> nat \<Rightarrow> nat \<Rightarrow> nat \<Rightarrow> nat \<Rightarrow> int \<Rightarrow> nat option list \<Rightarrow> nat
     \<Rightarrow> ecryptfs_inode \<Rightarrow> fault + loop_exit \<times> int \<times> nat option list \<times> ecryptfs_inode" where
  "ecryptfs_write2_loop e data offset sz pos data_offset rc pgs i s =
     (if pos < offset + sz
      then (case ecryptfs_write2_step e data offset sz pos data_offset pgs i s of
              Inl f \<Rightarrow> Inl f
            | Inr (Goto_out2 rc' s') \<Rightarrow> Inr (Jumped_out, rc', pgs, s')
            | Inr (Next2 pos' data_offset' pgs' i' s') \<Rightarrow>
                ecryptfs_write2_loop e data offset sz pos' data_offset' 0 pgs' i' s')
      else Inr (Fallthrough, rc, pgs, s))"
  by pat_completeness auto
termination
proof (relation "measure (\<lambda>(e, data, offset, sz, pos, rest). offset + sz - pos)")
  show "wf (measure (\<lambda>(e, data, offset, sz, pos, rest). offset + sz - pos))"
    by simp
next
  fix e data offset sz pos data_offset and rc :: int and pgs i s st pos' d' pgs' i' s'
  assume run: "pos < offset + sz"
    and st: "ecryptfs_write2_step e data offset sz pos data_offset pgs i s = Inr st"
            "st = Next2 pos' d' pgs' i' s'"
  have "take_bit PAGE_SHIFT pos < PAGE_SIZE"
    by (simp add: PAGE_SIZE_def take_bit_eq_mod)
  with run st have "pos < pos'"
    by (auto simp: ecryptfs_write2_step_def Let_def
             split: if_splits sum.splits prod.splits page_ptr.splits)
  with run
  show "((e, data, offset, sz, pos', d', 0, pgs', i', s'),
         (e, data, offset, sz, pos, data_offset, rc, pgs, i, s))
          \<in> measure (\<lambda>(e, data, offset, sz, pos, rest). offset + sz - pos)"
    by simp
qed

definition ecryptfs_write2 ::
  "env \<Rightarrow> ecryptfs_inode \<Rightarrow> (nat \<Rightarrow> byte) \<Rightarrow> nat \<Rightarrow> nat \<Rightarrow> fault + int \<times> ecryptfs_inode" where
  "ecryptfs_write2 e s data offset sz =
     (let ecryptfs_file_size = i_size s;
          nrpgs = sz div PAGE_SIZE;
          nrpgs = (if sz AND (PAGE_SIZE - 1) \<noteq> 0 then nrpgs + 1 else nrpgs)
      in if kmalloc_fails e then Inr (- errno_val ENOMEM, s)
         else
           let pgs = replicate nrpgs None;
               pos = (if ecryptfs_file_size < offset then ecryptfs_file_size else offset)
           in case ecryptfs_write2_loop e data offset sz pos 0 0 pgs 0 s of
                Inl f \<Rightarrow> Inl f
              | Inr (Jumped_out, rc, pgs', s') \<Rightarrow> Inr (rc, s')
              | Inr (Fallthrough, rc, pgs', s1) \<Rightarrow>
                  (case (if ECRYPTFS_ENCRYPTED s1
                         then (case ecryptfs_encrypt_pages2 e s1 pgs' nrpgs of
                                 Inl f \<Rightarrow> Inl f
                               | Inr (rc', s2) \<Rightarrow>
                                   Inr (rc', foldl put_page s2 (map the (take nrpgs pgs'))))
                         else Inr (rc, s1)) of
                     Inl f \<Rightarrow> Inl f
                   | Inr (rc1, s3) \<Rightarrow>
                       if ecryptfs_file_size < offset + sz
                       then (let s4 = s3\<lparr>i_size := offset + sz\<rparr>
                             in if ECRYPTFS_ENCRYPTED s4
                                then Inr (size_to_metadata_rc e, s4)
                                else Inr (rc1, s4))
                       else Inr (rc1, s3)))"

subsection \<open>The batched read\<close>

text \<open>\<^verbatim>\<open>grab_cache_page\<close> of the kernel: the page of the cache at the index, with a
  reference taken and locked, not filled; or a null pointer.\<close>

definition grab_cache_page :: "env \<Rightarrow> ecryptfs_inode \<Rightarrow> nat \<Rightarrow> ecryptfs_inode option" where
  "grab_cache_page e s idx =
     (if grab_cache_page_fails e idx then None
      else Some (lock_page (get_page s idx) idx))"

text \<open>Modelled from the spec: \<^verbatim>\<open>mapping->a_ops->readpage\<close>, which is \<^verbatim>\<open>ecryptfs_readpage\<close>
  of mmap.c, the spec's page-fill primitive: it fills the locked page from the lower file,
  marks it up to date or not by its status, and unlocks it.\<close>

definition readpage :: "env \<Rightarrow> ecryptfs_inode \<Rightarrow> nat \<Rightarrow> int \<times> ecryptfs_inode" where
  "readpage e s idx =
     (let rc = readpage_rc e idx;
          s1 = (if rc = 0 then SetPageUptodate (fill_page s idx) idx
                else ClearPageUptodate s idx)
      in (rc, unlock_page s1 idx))"

text \<open>Modelled from the spec: \<^verbatim>\<open>ecryptfs_decrypt_pages\<close>, the spec's \<^verbatim>\<open>decryptPages\<close>:
  one status for the batch; on success every page of the batch holds the plaintext of its
  index in the lower file, on failure the pages are left as they were acquired.\<close>

definition ecryptfs_decrypt_pages ::
  "env \<Rightarrow> ecryptfs_inode \<Rightarrow> nat option list option \<Rightarrow> nat \<Rightarrow> fault + int \<times> ecryptfs_inode" where
  "ecryptfs_decrypt_pages e s pgs nr_pages =
     (case pgs of
        None \<Rightarrow> Inl NullDereference
      | Some ps \<Rightarrow>
          (case batch_pages ps nr_pages of
             Inl f \<Rightarrow> Inl f
           | Inr idxs \<Rightarrow>
               (let rc = decrypt_pages_rc e
                in Inr (rc, if rc = 0 then foldl fill_page s idxs else s))))"

text \<open>The body of the acquisition loop between \<^verbatim>\<open>grab_cache_page\<close> and the store into
  \<^verbatim>\<open>pgs\<close>: \<^verbatim>\<open>if (nodec) rc |= readpage(file, page)\<close>.\<close>

definition read2_fill :: "env \<Rightarrow> bool \<Rightarrow> int \<Rightarrow> ecryptfs_inode \<Rightarrow> nat \<Rightarrow> int \<times> ecryptfs_inode" where
  "read2_fill e nodec rc s page_idx =
     (if nodec then (case readpage e s page_idx of (r, s') \<Rightarrow> (rc OR r, s'))
      else (rc, s))"

text \<open>The acquisition loop \<^verbatim>\<open>for (page_idx = 0; page_idx < nr_pages; page_idx++)\<close>. The array
  \<^verbatim>\<open>pgs\<close> is \<open>None\<close> when the pointer is null (no array was allocated).\<close>

function ecryptfs_read2_grab ::
  "env \<Rightarrow> bool \<Rightarrow> nat \<Rightarrow> nat \<Rightarrow> int \<Rightarrow> nat option list option \<Rightarrow> ecryptfs_inode
     \<Rightarrow> fault + loop_exit \<times> int \<times> nat option list option \<times> ecryptfs_inode" where
  "ecryptfs_read2_grab e nodec nr_pages page_idx rc pgs s =
     (if page_idx < nr_pages
      then (case grab_cache_page e s page_idx of
              None \<Rightarrow> Inr (Jumped_out, rc, pgs, s)
            | Some s1 \<Rightarrow>
                (case read2_fill e nodec rc s1 page_idx of
                   (rc', s2) \<Rightarrow>
                     (case pgs of
                        None \<Rightarrow> Inl NullDereference
                      | Some ps \<Rightarrow>
                          if page_idx < length ps
                          then ecryptfs_read2_grab e nodec nr_pages (page_idx + 1) rc'
                                 (Some (ps[page_idx := Some page_idx])) s2
                          else Inl OutOfBounds)))
      else Inr (Fallthrough, rc, pgs, s))"
  by pat_completeness auto
termination
  by (relation "measure (\<lambda>(e, nodec, nr_pages, page_idx, rest). nr_pages - page_idx)") auto

text \<open>\<^verbatim>\<open>copy_to_user(data + data_offset, virt + start, n)\<close> into the caller's buffer.\<close>

definition copy_to_user ::
  "(nat \<Rightarrow> byte) \<Rightarrow> nat \<Rightarrow> (nat \<Rightarrow> byte) \<Rightarrow> nat \<Rightarrow> nat \<Rightarrow> (nat \<Rightarrow> byte)" where
  "copy_to_user data data_offset virt start n =
     (\<lambda>k. if data_offset \<le> k \<and> k < data_offset + n then virt (start + (k - data_offset))
          else data k)"

text \<open>The number of bytes one iteration of the copy loop moves.\<close>

definition read2_num_bytes :: "nat \<Rightarrow> nat \<Rightarrow> nat \<Rightarrow> nat" where
  "read2_num_bytes offset sz pos =
     (let start_offset_in_page = take_bit PAGE_SHIFT pos;
          num_bytes = PAGE_SIZE - start_offset_in_page;
          total_remaining_bytes = (offset + sz) - pos
      in if total_remaining_bytes < num_bytes then total_remaining_bytes else num_bytes)"

text \<open>The copy loop \<^verbatim>\<open>while (pos < (offset + size))\<close>. Every pointer of the batch came from
  \<^verbatim>\<open>grab_cache_page\<close>, which answers a page or null, so \<^verbatim>\<open>IS_ERR\<close> is false of each.\<close>

function ecryptfs_read2_walk ::
  "int \<Rightarrow> nat option list option \<Rightarrow> nat \<Rightarrow> nat \<Rightarrow> nat \<Rightarrow> nat \<Rightarrow> nat \<Rightarrow> nat
     \<Rightarrow> (nat \<Rightarrow> byte) \<Rightarrow> ecryptfs_inode \<Rightarrow> fault + nat \<times> (nat \<Rightarrow> byte) \<times> ecryptfs_inode" where
  "ecryptfs_read2_walk rc pgs offset sz pos written data_offset page_idx data s =
     (if pos < offset + sz
      then (let start_offset_in_page = take_bit PAGE_SHIFT pos;
                num_bytes = read2_num_bytes offset sz pos
            in case pgs of
                 None \<Rightarrow> Inl NullDereference
               | Some ps \<Rightarrow>
                   if length ps \<le> page_idx then Inl OutOfBounds
                   else (case ps ! page_idx of
                           None \<Rightarrow> Inl Uninitialised
                         | Some ecryptfs_page \<Rightarrow>
                             let data' = copy_to_user data data_offset
                                           (contents (i_mapping s ecryptfs_page))
                                           start_offset_in_page num_bytes;
                                 s1 = (if rc \<noteq> 0 then ClearPageUptodate s ecryptfs_page
                                       else SetPageUptodate s ecryptfs_page);
                                 s2 = put_page (unlock_page s1 ecryptfs_page) ecryptfs_page
                             in ecryptfs_read2_walk rc pgs offset sz (pos + num_bytes)
                                  (written + num_bytes) (data_offset + num_bytes)
                                  (page_idx + 1) data' s2))
      else Inr (written, data, s))"
  by pat_completeness auto
termination
proof (relation "measure (\<lambda>(rc, pgs, offset, sz, pos, rest). offset + sz - pos)")
  show "wf (measure (\<lambda>(rc, pgs, offset, sz, pos, rest). offset + sz - pos))"
    by simp
next
  fix rc :: int and pgs :: "nat option list option" and offset sz pos written data_offset
    page_idx :: nat and data :: "nat \<Rightarrow> byte" and s :: ecryptfs_inode
    and start num_bytes :: nat and ps pg data' s1 s2
  assume run: "pos < offset + sz" and nb: "num_bytes = read2_num_bytes offset sz pos"
  have "take_bit PAGE_SHIFT pos < PAGE_SIZE"
    by (simp add: PAGE_SIZE_def take_bit_eq_mod)
  with run nb have "0 < num_bytes"
    by (simp add: read2_num_bytes_def Let_def)
  with run
  show "((rc, pgs, offset, sz, pos + num_bytes, written + num_bytes, data_offset + num_bytes,
          page_idx + 1, data', s2),
         (rc, pgs, offset, sz, pos, written, data_offset, page_idx, data, s))
          \<in> measure (\<lambda>(rc, pgs, offset, sz, pos, rest). offset + sz - pos)"
    by simp
qed

definition ecryptfs_read2 ::
  "env \<Rightarrow> ecryptfs_inode \<Rightarrow> (nat \<Rightarrow> byte) \<Rightarrow> nat \<Rightarrow> nat
     \<Rightarrow> fault + int \<times> (nat \<Rightarrow> byte) \<times> ecryptfs_inode" where
  "ecryptfs_read2 e s data offset sz =
     (let ecryptfs_file_size = i_size s;
          sz = (if ecryptfs_file_size < sz then ecryptfs_file_size else sz);
          nr_pages = drop_bit PAGE_SHIFT (sz + PAGE_SIZE - 1);
          nodec = (if ECRYPTFS_ENCRYPTED s then ECRYPTFS_VIEW_AS_ENCRYPTED s else True)
      in if \<not> nodec \<and> kmalloc_fails e then Inr (- errno_val EFAULT, data, s)
         else
           let pgs = (if nodec then None else Some (replicate nr_pages None))
           in case ecryptfs_read2_grab e nodec nr_pages 0 0 pgs s of
                Inl f \<Rightarrow> Inl f
              | Inr (Jumped_out, rc, pgs1, s1) \<Rightarrow> Inr (0, data, s1\<lparr>accessed := True\<rparr>)
              | Inr (Fallthrough, rc, pgs1, s1) \<Rightarrow>
                  (case (if nodec then Inr (rc, s1)
                         else ecryptfs_decrypt_pages e s1 pgs1 nr_pages) of
                     Inl f \<Rightarrow> Inl f
                   | Inr (rc1, s2) \<Rightarrow>
                       if ecryptfs_file_size \<le> offset
                       then Inr (0, data, s2\<lparr>accessed := True\<rparr>)
                       else (case ecryptfs_read2_walk rc1 pgs1 offset sz offset 0 0 0 data s2 of
                               Inl f \<Rightarrow> Inl f
                             | Inr (written, data', s3) \<Rightarrow>
                                 Inr (int written, data', s3\<lparr>accessed := True\<rparr>))))"

subsection \<open>Observing a call, and sample inputs\<close>

definition after_write :: "(ecryptfs_inode \<Rightarrow> 'a) \<Rightarrow> fault + int \<times> ecryptfs_inode \<Rightarrow> 'a option" where
  "after_write f r = (case r of Inl fl \<Rightarrow> None | Inr (rc, s) \<Rightarrow> Some (f s))"

definition write_rc :: "fault + int \<times> ecryptfs_inode \<Rightarrow> int option" where
  "write_rc r = (case r of Inl fl \<Rightarrow> None | Inr (rc, s) \<Rightarrow> Some rc)"

definition then_read2 ::
  "env \<Rightarrow> (nat \<Rightarrow> byte) \<Rightarrow> nat \<Rightarrow> nat \<Rightarrow> fault + int \<times> ecryptfs_inode
     \<Rightarrow> fault + int \<times> (nat \<Rightarrow> byte) \<times> ecryptfs_inode" where
  "then_read2 e data offset sz r =
     (case r of Inl fl \<Rightarrow> Inl fl | Inr (rc, s) \<Rightarrow> ecryptfs_read2 e s data offset sz)"

definition read_count :: "fault + int \<times> (nat \<Rightarrow> byte) \<times> ecryptfs_inode \<Rightarrow> int option" where
  "read_count r = (case r of Inl fl \<Rightarrow> None | Inr (n, data, s) \<Rightarrow> Some n)"

definition read_byte :: "nat \<Rightarrow> fault + int \<times> (nat \<Rightarrow> byte) \<times> ecryptfs_inode \<Rightarrow> byte option" where
  "read_byte k r = (case r of Inl fl \<Rightarrow> None | Inr (n, data, s) \<Rightarrow> Some (data k))"

definition after_read ::
  "(ecryptfs_inode \<Rightarrow> 'a) \<Rightarrow> fault + int \<times> (nat \<Rightarrow> byte) \<times> ecryptfs_inode \<Rightarrow> 'a option" where
  "after_read f r = (case r of Inl fl \<Rightarrow> None | Inr (n, data, s) \<Rightarrow> Some (f s))"

text \<open>The byte of the page cache, and of the lower file, at a file position; the page of
  the cache holding a position.\<close>

definition cached_at :: "nat \<Rightarrow> ecryptfs_inode \<Rightarrow> byte" where
  "cached_at p s = contents (i_mapping s (drop_bit PAGE_SHIFT p)) (take_bit PAGE_SHIFT p)"

definition lower_at :: "nat \<Rightarrow> ecryptfs_inode \<Rightarrow> byte" where
  "lower_at p s = lower_bytes s p"

definition page_at :: "nat \<Rightarrow> ecryptfs_inode \<Rightarrow> page" where
  "page_at p s = i_mapping s (drop_bit PAGE_SHIFT p)"

text \<open>An environment in which no signal is pending and every collaborator succeeds.\<close>

definition env_ok :: env where
  "env_ok = \<lparr>fatal_signal_pending = (\<lambda>pos. False), get_locked_page_err = (\<lambda>pos. None),
     write_begin_page = (\<lambda>pos. PagePtr), encrypt_page_rc = (\<lambda>pos. 0),
     kernel_write_err = (\<lambda>pos. None), size_to_metadata_rc = 0, kmalloc_fails = False,
     encrypt_pages2_rc = 0, decrypt_pages_rc = 0, grab_cache_page_fails = (\<lambda>idx. False),
     readpage_rc = (\<lambda>idx. 0)\<rparr>"

text \<open>A file holding the bytes \<open>bs\<close> in its first page, in the lower file and (up to date)
  in the cache; \<open>enc\<close> says whether it is encrypted. No page is locked or referenced.\<close>

definition small_file :: "bool \<Rightarrow> byte list \<Rightarrow> ecryptfs_inode" where
  "small_file enc bs =
     \<lparr>i_size = length bs, ECRYPTFS_ENCRYPTED = enc, ECRYPTFS_VIEW_AS_ENCRYPTED = False,
      lower_file = True,
      i_mapping = (\<lambda>idx. \<lparr>contents = (\<lambda>k. if idx = 0 \<and> k < length bs then bs ! k else 0),
                          PageUptodate = (idx = 0 \<and> bs \<noteq> []), PageLocked = False,
                          page_count = 0\<rparr>),
      lower_bytes = (\<lambda>p. if p < length bs then bs ! p else 0), accessed = False\<rparr>"

text \<open>The inode after each page of a list has had a reference taken and been locked.\<close>

definition grabbed :: "ecryptfs_inode \<Rightarrow> nat list \<Rightarrow> ecryptfs_inode" where
  "grabbed s idxs = foldl (\<lambda>t i. lock_page (get_page t i) i) s idxs"

text \<open>Buffers: all zero bytes, all \<open>X\<close> (0x58), all 0xFF.\<close>

definition zero_buf :: "nat \<Rightarrow> byte" where
  "zero_buf k = 0"

definition x_buf :: "nat \<Rightarrow> byte" where
  "x_buf k = 0x58"

definition ff_buf :: "nat \<Rightarrow> byte" where
  "ff_buf k = 0xFF"

text \<open>Environments: a fatal signal pending throughout; the group encryption failing with
  \<^verbatim>\<open>-EIO\<close>.\<close>

definition env_signal :: env where
  "env_signal = env_ok\<lparr>fatal_signal_pending := (\<lambda>pos. True)\<rparr>"

definition env_encrypt_fails :: env where
  "env_encrypt_fails = env_ok\<lparr>encrypt_pages2_rc := - errno_val EIO\<rparr>"


definition two_page_file :: ecryptfs_inode where
  "two_page_file =
     \<lparr>i_size = 4097, ECRYPTFS_ENCRYPTED = True, ECRYPTFS_VIEW_AS_ENCRYPTED = False,
      lower_file = True,
      i_mapping = (\<lambda>idx. \<lparr>contents = (\<lambda>k. 0), PageUptodate = False, PageLocked = False,
                          page_count = 0\<rparr>),
      lower_bytes = (\<lambda>p. if p < 4096 then 0x41 else 0x42), accessed = False\<rparr>"

subsection \<open>Notions used in the proofs\<close>

text \<open>A position is zero-filled when its page is up to date and holds 0 there, and, for an
  encrypted file, the lower file holds 0 there too.\<close>

definition zero_at :: "nat \<Rightarrow> ecryptfs_inode \<Rightarrow> bool" where
  "zero_at q s =
     (PageUptodate (page_at q s) \<and> cached_at q s = 0
      \<and> (if ECRYPTFS_ENCRYPTED s then lower_at q s = 0 else True))"

text \<open>The byte count of a step of the write loops and the page a step leaves in the cache
  before it is committed, as the loop bodies compute them from the page acquired; and the
  page \<^verbatim>\<open>ecryptfs_get_locked_page\<close> hands over.\<close>

definition step_bytes :: "nat \<Rightarrow> nat \<Rightarrow> nat \<Rightarrow> nat" where
  "step_bytes offset sz pos =
     (if pos < offset
      then (if offset - pos
               < (if offset + sz - pos < PAGE_SIZE - take_bit PAGE_SHIFT pos
                  then offset + sz - pos else PAGE_SIZE - take_bit PAGE_SHIFT pos)
            then offset - pos
            else (if offset + sz - pos < PAGE_SIZE - take_bit PAGE_SHIFT pos
                  then offset + sz - pos else PAGE_SIZE - take_bit PAGE_SHIFT pos))
      else (if offset + sz - pos < PAGE_SIZE - take_bit PAGE_SHIFT pos
            then offset + sz - pos else PAGE_SIZE - take_bit PAGE_SHIFT pos))"

definition step_page ::
  "ecryptfs_inode \<Rightarrow> (nat \<Rightarrow> byte) \<Rightarrow> nat \<Rightarrow> nat \<Rightarrow> nat \<Rightarrow> nat \<Rightarrow> ecryptfs_inode" where
  "step_page s1 data offset sz pos d =
     unlock_page
       (SetPageUptodate
         (if offset \<le> pos
          then memcpy_page
                 (if pos < offset \<or> take_bit PAGE_SHIFT pos = 0
                  then memset_page s1 (drop_bit PAGE_SHIFT pos) (take_bit PAGE_SHIFT pos)
                         (PAGE_SIZE - take_bit PAGE_SHIFT pos)
                  else s1)
                 (drop_bit PAGE_SHIFT pos) (take_bit PAGE_SHIFT pos) data d
                 (step_bytes offset sz pos)
          else if pos < offset \<or> take_bit PAGE_SHIFT pos = 0
               then memset_page s1 (drop_bit PAGE_SHIFT pos) (take_bit PAGE_SHIFT pos)
                      (PAGE_SIZE - take_bit PAGE_SHIFT pos)
               else s1)
         (drop_bit PAGE_SHIFT pos))
       (drop_bit PAGE_SHIFT pos)"

definition acquired :: "ecryptfs_inode \<Rightarrow> nat \<Rightarrow> ecryptfs_inode" where
  "acquired s idx =
     lock_page (get_page (if PageUptodate (i_mapping s idx) then s
                          else SetPageUptodate (fill_page s idx) idx) idx) idx"

section \<open>Properties\<close>

subsection \<open>Evaluating the model\<close>

declare ecryptfs_write_loop.simps [simp del] ecryptfs_write2_loop.simps [simp del]
  ecryptfs_read2_grab.simps [simp del] ecryptfs_read2_walk.simps [simp del]

lemmas eval_defs =
  ecryptfs_write_loop.simps ecryptfs_write2_loop.simps ecryptfs_read2_grab.simps
  ecryptfs_read2_walk.simps
  after_write_def write_rc_def then_read2_def read_count_def read_byte_def after_read_def
  cached_at_def lower_at_def page_at_def env_ok_def small_file_def
  zero_buf_def x_buf_def ff_buf_def env_signal_def env_encrypt_fails_def
  ecryptfs_write_def ecryptfs_write_step_def ecryptfs_write2_def ecryptfs_write2_step_def
  ecryptfs_read2_def read2_num_bytes_def read2_fill_def readpage_def grab_cache_page_def
  ecryptfs_decrypt_pages_def batch_pages_def ecryptfs_encrypt_pages2_def
  grab_cache_page_write_begin_def copy_to_user_def
  Let_def PAGE_SIZE_def PAGE_SHIFT_def ecryptfs_get_locked_page_def ecryptfs_encrypt_page_def
  lock_page_def get_page_def upd_page_def SetPageUptodate_def ClearPageUptodate_def
  fill_page_def memset_page_def memcpy_page_def unlock_page_def put_page_def store_page_def
  take_bit_eq_mod drop_bit_eq_div push_bit_eq_mult
  ecryptfs_write_lower_page_segment_def ecryptfs_write_lower_def kernel_write_def

subsection \<open>Fields that page operations leave alone\<close>

lemmas page_ops = lock_page_def unlock_page_def get_page_def put_page_def SetPageUptodate_def
  ClearPageUptodate_def memset_page_def memcpy_page_def fill_page_def

lemma upd_page_fields [simp]:
  "i_size (upd_page s idx f) = i_size s"
  "ECRYPTFS_ENCRYPTED (upd_page s idx f) = ECRYPTFS_ENCRYPTED s"
  "ECRYPTFS_VIEW_AS_ENCRYPTED (upd_page s idx f) = ECRYPTFS_VIEW_AS_ENCRYPTED s"
  "lower_file (upd_page s idx f) = lower_file s"
  "lower_bytes (upd_page s idx f) = lower_bytes s"
  "accessed (upd_page s idx f) = accessed s"
  "i_mapping (upd_page s idx f) = (i_mapping s)(idx := f (i_mapping s idx))"
  by (simp_all add: upd_page_def)

lemma store_page_fields [simp]:
  "i_size (store_page s idx) = i_size s"
  "ECRYPTFS_ENCRYPTED (store_page s idx) = ECRYPTFS_ENCRYPTED s"
  "ECRYPTFS_VIEW_AS_ENCRYPTED (store_page s idx) = ECRYPTFS_VIEW_AS_ENCRYPTED s"
  "lower_file (store_page s idx) = lower_file s"
  "accessed (store_page s idx) = accessed s"
  "i_mapping (store_page s idx) = i_mapping s"
  by (simp_all add: store_page_def)

lemma foldl_store_page_meta [simp]:
  "i_size (foldl store_page s xs) = i_size s"
  "ECRYPTFS_ENCRYPTED (foldl store_page s xs) = ECRYPTFS_ENCRYPTED s"
  by (induction xs arbitrary: s) simp_all

lemma foldl_put_page_meta [simp]:
  "i_size (foldl put_page s xs) = i_size s"
  "ECRYPTFS_ENCRYPTED (foldl put_page s xs) = ECRYPTFS_ENCRYPTED s"
  by (induction xs arbitrary: s) (simp_all add: put_page_def)

lemma grabbed_fields [simp]:
  "i_size (grabbed s xs) = i_size s"
  "lower_bytes (grabbed s xs) = lower_bytes s"
  "ECRYPTFS_ENCRYPTED (grabbed s xs) = ECRYPTFS_ENCRYPTED s"
  by (induction xs arbitrary: s) (simp_all add: grabbed_def page_ops)

subsection \<open>Page arithmetic\<close>

lemma PAGE_SIZE_pos [simp]: "0 < PAGE_SIZE"
  by (simp add: PAGE_SIZE_def)

lemma take_bit_PAGE: "take_bit PAGE_SHIFT p = p mod PAGE_SIZE"
  by (simp add: take_bit_eq_mod PAGE_SIZE_def)

lemma drop_bit_PAGE: "drop_bit PAGE_SHIFT p = p div PAGE_SIZE"
  by (simp add: drop_bit_eq_div PAGE_SIZE_def)

lemma same_page:
  fixes P :: nat
  assumes "pos \<le> q" and "q < pos + (P - pos mod P)"
  shows "q div P = pos div P \<and> q mod P = pos mod P + (q - pos)"
proof -
  define a where "a = pos div P"
  define r where "r = pos mod P + (q - pos)"
  from assms have r: "r < P" by (simp add: r_def)
  have "pos div P * P + pos mod P = pos" by simp
  with assms have q: "q = r + a * P" unfolding r_def a_def by linarith
  from r have "(r + a * P) div P = a" "(r + a * P) mod P = r"
    by simp_all
  with q show ?thesis by (simp add: a_def r_def)
qed

lemma next_page:
  fixes P :: nat
  assumes "0 < P"
  shows "(pos + (P - pos mod P)) div P = pos div P + 1"
proof -
  define a where "a = pos div P"
  have m: "pos mod P < P" using assms by simp
  have "pos div P * P + pos mod P = pos" by simp
  with m have "pos + (P - pos mod P) = P + a * P"
    unfolding a_def by linarith
  moreover have "(P + a * P) div P = a + 1"
    using assms by simp
  ultimately show ?thesis by (simp add: a_def)
qed

lemma earlier_same_page:
  fixes P :: nat
  assumes "q < pos" and "q div P = pos div P"
  shows "q mod P < pos mod P"
proof -
  have "q div P * P + q mod P = q" "pos div P * P + pos mod P = pos" by simp_all
  with assms show ?thesis by (metis nat_add_left_cancel_less)
qed

subsection \<open>Writing nothing\<close>

text \<open>Claim C9, as the code has it: a call of \<^verbatim>\<open>ecryptfs_write\<close> with length 0 at an offset
  that is not beyond the current size of the file is a no-op: the loop is not entered, the
  inode, its pages and its lower file are returned as they were, and the call returns 0.\<close>

theorem write_nothing_within_size:
  assumes "offset \<le> i_size s"
  shows "ecryptfs_write e s data offset 0 = Inr (0, s)"
  using assms by (simp add: ecryptfs_write_def ecryptfs_write_loop.simps)

text \<open>The theorem at a two-byte file and the offset 1.\<close>

theorem write_nothing_within_size_witness:
  "(1::nat) \<le> i_size (small_file True [0x41, 0x42])
   \<and> ecryptfs_write env_ok (small_file True [0x41, 0x42]) zero_buf 1 0
       = Inr (0, small_file True [0x41, 0x42])"
  using write_nothing_within_size [of 1 "small_file True [0x41, 0x42]" env_ok zero_buf]
  by (simp add: small_file_def)

text \<open>Claim C9 as stated fails beyond the size: on an empty file, a write of length 0 at
  offset 1 zero-fills the gap, leaves page 0 up to date where it was not, sets the size to
  1 and returns 0.\<close>

theorem write_nothing_beyond_size_extends:
  "i_size (small_file True []) = 0
   \<and> PageUptodate (page_at 0 (small_file True [])) = False
   \<and> write_rc (ecryptfs_write env_ok (small_file True []) zero_buf 1 0) = Some 0
   \<and> after_write i_size (ecryptfs_write env_ok (small_file True []) zero_buf 1 0) = Some 1
   \<and> after_write (PageUptodate \<circ> page_at 0)
        (ecryptfs_write env_ok (small_file True []) zero_buf 1 0) = Some True"
  by (simp add: eval_defs)

subsection \<open>Defects shown by evaluation\<close>

text \<open>Claim C1 fails on the code: on an empty encrypted file, \<^verbatim>\<open>ecryptfs_write\<close> of one byte
  \<open>X\<close> at offset 4096 succeeds and the cache holds \<open>X\<close> at position 4096, but
  \<^verbatim>\<open>ecryptfs_read2\<close> of the same range returns one byte that is 0, the first byte of page 0.\<close>

theorem write_then_read2_second_page:
  "write_rc (ecryptfs_write env_ok (small_file True []) x_buf 4096 1) = Some 0
   \<and> after_write (cached_at 4096) (ecryptfs_write env_ok (small_file True []) x_buf 4096 1)
       = Some 0x58
   \<and> read_count (then_read2 env_ok ff_buf 4096 1
        (ecryptfs_write env_ok (small_file True []) x_buf 4096 1)) = Some 1
   \<and> read_byte 0 (then_read2 env_ok ff_buf 4096 1
        (ecryptfs_write env_ok (small_file True []) x_buf 4096 1)) = Some 0"
  by (simp add: eval_defs)

text \<open>Claim C2 fails on the code, through the same defect of the read: on the encrypted file
  of 4097 bytes, \<open>A\<close> throughout its first page, \<^verbatim>\<open>ecryptfs_write\<close> of one byte \<open>X\<close> at
  offset 4100 succeeds, the size becomes 4101, and the gap, the positions 4097 to 4099,
  holds 0 in the cache and in the lower file; but \<^verbatim>\<open>ecryptfs_read2\<close> of the three bytes
  at offset 4097 returns \<open>AAA\<close>, the bytes at the positions 1 to 3 of page 0.\<close>

theorem write_gap_read2_not_zero:
  "i_size two_page_file = 4097
   \<and> write_rc (ecryptfs_write env_ok two_page_file x_buf 4100 1) = Some 0
   \<and> after_write i_size (ecryptfs_write env_ok two_page_file x_buf 4100 1) = Some 4101
   \<and> after_write (cached_at 4097) (ecryptfs_write env_ok two_page_file x_buf 4100 1) = Some 0
   \<and> after_write (cached_at 4098) (ecryptfs_write env_ok two_page_file x_buf 4100 1) = Some 0
   \<and> after_write (cached_at 4099) (ecryptfs_write env_ok two_page_file x_buf 4100 1) = Some 0
   \<and> after_write (lower_at 4097) (ecryptfs_write env_ok two_page_file x_buf 4100 1) = Some 0
   \<and> after_write (lower_at 4098) (ecryptfs_write env_ok two_page_file x_buf 4100 1) = Some 0
   \<and> after_write (lower_at 4099) (ecryptfs_write env_ok two_page_file x_buf 4100 1) = Some 0
   \<and> read_count (then_read2 env_ok ff_buf 4097 3
        (ecryptfs_write env_ok two_page_file x_buf 4100 1)) = Some 3
   \<and> read_byte 0 (then_read2 env_ok ff_buf 4097 3
        (ecryptfs_write env_ok two_page_file x_buf 4100 1)) = Some 0x41
   \<and> read_byte 1 (then_read2 env_ok ff_buf 4097 3
        (ecryptfs_write env_ok two_page_file x_buf 4100 1)) = Some 0x41
   \<and> read_byte 2 (then_read2 env_ok ff_buf 4097 3
        (ecryptfs_write env_ok two_page_file x_buf 4100 1)) = Some 0x41"
  by (simp add: two_page_file_def eval_defs)

text \<open>Claim C5 fails on the code: on an empty encrypted file, \<^verbatim>\<open>ecryptfs_write2\<close> of one
  byte at offset 0 whose group encryption fails with \<^verbatim>\<open>-EIO\<close> returns 0: the status of
  the size record, written next, replaces the failure.\<close>

theorem write2_loses_encrypt_failure:
  "encrypt_pages2_rc env_encrypt_fails = - 5
   \<and> write_rc (ecryptfs_write2 env_encrypt_fails (small_file True []) x_buf 0 1) = Some 0
   \<and> after_write i_size (ecryptfs_write2 env_encrypt_fails (small_file True []) x_buf 0 1)
       = Some 1"
  by (simp add: eval_defs)

text \<open>Claim C6 fails on the code: on the plaintext file \<open>AB\<close>, \<^verbatim>\<open>ecryptfs_write\<close> of one
  byte \<open>X\<close> at offset 1 puts \<open>X\<close> at position 1 of the cache, but the byte persisted at
  position 1 of the lower file is \<open>A\<close>, the first byte of the page.\<close>

theorem write_persists_page_start:
  "write_rc (ecryptfs_write env_ok (small_file False [0x41, 0x42]) x_buf 1 1) = Some 0
   \<and> after_write (cached_at 1) (ecryptfs_write env_ok (small_file False [0x41, 0x42]) x_buf 1 1)
       = Some 0x58
   \<and> after_write (lower_at 1) (ecryptfs_write env_ok (small_file False [0x41, 0x42]) x_buf 1 1)
       = Some 0x41"
  by (simp add: eval_defs)

text \<open>Claim C7 fails on the code for the batched variant: with a fatal signal pending
  throughout, \<^verbatim>\<open>ecryptfs_write2\<close> of one byte on an empty plaintext file writes it and
  returns 0, where \<^verbatim>\<open>ecryptfs_write\<close> returns \<^verbatim>\<open>-EINTR\<close> and writes nothing.\<close>

theorem write2_ignores_signal:
  "write_rc (ecryptfs_write2 env_signal (small_file False []) x_buf 0 1) = Some 0
   \<and> after_write i_size (ecryptfs_write2 env_signal (small_file False []) x_buf 0 1) = Some 1
   \<and> after_write (lower_at 0) (ecryptfs_write2 env_signal (small_file False []) x_buf 0 1)
       = Some 0x58
   \<and> write_rc (ecryptfs_write env_signal (small_file False []) x_buf 0 1) = Some (- 4)
   \<and> after_write i_size (ecryptfs_write env_signal (small_file False []) x_buf 0 1) = Some 0"
  by (simp add: eval_defs)

text \<open>Claim C8 fails on the code: on an encrypted file of five bytes whose pages are
  unlocked and unreferenced, \<^verbatim>\<open>ecryptfs_read2\<close> at offset 5, the end of the file, returns 0
  and leaves page 0 locked with its reference held.\<close>

theorem read2_at_eof_keeps_page_locked:
  "PageLocked (page_at 0 (small_file True [1, 2, 3, 4, 5])) = False
   \<and> page_count (page_at 0 (small_file True [1, 2, 3, 4, 5])) = 0
   \<and> read_count (ecryptfs_read2 env_ok (small_file True [1, 2, 3, 4, 5]) ff_buf 5 1) = Some 0
   \<and> after_read (PageLocked \<circ> page_at 0)
        (ecryptfs_read2 env_ok (small_file True [1, 2, 3, 4, 5]) ff_buf 5 1) = Some True
   \<and> after_read (page_count \<circ> page_at 0)
        (ecryptfs_read2 env_ok (small_file True [1, 2, 3, 4, 5]) ff_buf 5 1) = Some 1"
  by (simp add: eval_defs)

subsection \<open>The size after a batched write\<close>

lemma write2_step_meta:
  assumes "ecryptfs_write2_step e data offset sz pos d pgs i s = Inr (Next2 pos' d' pgs' i' s')"
  shows "ECRYPTFS_ENCRYPTED s' = ECRYPTFS_ENCRYPTED s \<and> i_size s' = i_size s"
  using assms
  by (auto simp: ecryptfs_write2_step_def Let_def grab_cache_page_write_begin_def page_ops
        ecryptfs_write_lower_page_segment_def ecryptfs_write_lower_def kernel_write_def
      split: if_splits sum.splits prod.splits page_ptr.splits option.splits)

lemma write2_step_encrypted_no_jump:
  assumes "ECRYPTFS_ENCRYPTED s" and "write_begin_page e pos = PagePtr"
  shows "ecryptfs_write2_step e data offset sz pos d pgs i s \<noteq> Inr (Goto_out2 rc s')"
  using assms
  by (auto simp: ecryptfs_write2_step_def Let_def grab_cache_page_write_begin_def page_ops
      split: if_splits sum.splits prod.splits page_ptr.splits)

lemma write2_loop_encrypted:
  assumes "ECRYPTFS_ENCRYPTED s" and "\<forall>pos. write_begin_page e pos = PagePtr"
    and "ecryptfs_write2_loop e data offset sz pos d rc pgs i s = Inr (ex, rc', pgs', s')"
  shows "ex = Fallthrough \<and> ECRYPTFS_ENCRYPTED s' \<and> i_size s' = i_size s"
  using assms
proof (induction e data offset sz pos d rc pgs i s rule: ecryptfs_write2_loop.induct)
  case (1 e data offset sz pos d rc pgs i s)
  show ?case
  proof (cases "pos < offset + sz")
    case False
    with "1.prems" show ?thesis
      by (simp add: ecryptfs_write2_loop.simps)
  next
    case True
    show ?thesis
    proof (cases "ecryptfs_write2_step e data offset sz pos d pgs i s")
      case (Inl f)
      with True "1.prems" show ?thesis
        by (simp add: ecryptfs_write2_loop.simps)
    next
      case (Inr st)
      show ?thesis
      proof (cases st)
        case (Goto_out2 r t)
        with Inr "1.prems" write2_step_encrypted_no_jump show ?thesis
          by blast
      next
        case (Next2 pos' d' pgs1 i1 s1)
        from Inr Next2 have meta: "ECRYPTFS_ENCRYPTED s1 = ECRYPTFS_ENCRYPTED s" "i_size s1 = i_size s"
          using write2_step_meta by blast+
        from True Inr Next2 "1.prems"
        have "ecryptfs_write2_loop e data offset sz pos' d' 0 pgs1 i1 s1 = Inr (ex, rc', pgs', s')"
          by (simp add: ecryptfs_write2_loop.simps)
        with "1.IH" [OF True Inr Next2] meta "1.prems" show ?thesis
          by simp
      qed
    qed
  qed
qed

text \<open>Claim C4: a call of \<^verbatim>\<open>ecryptfs_write2\<close> on an encrypted file that reaches beyond the
  current size, whose array is allocated and whose page lookups succeed (so that the walk
  runs to its end and the group encryption is called), and that returns, leaves the size at
  \<open>offset + sz\<close> whatever status \<open>r\<close> the group encryption reports.\<close>

theorem write2_size_regardless:
  assumes enc: "ECRYPTFS_ENCRYPTED s"
    and ext: "i_size s < offset + sz"
    and grabs: "\<forall>pos. write_begin_page e pos = PagePtr"
    and alloc: "\<not> kmalloc_fails e"
    and ret: "ecryptfs_write2 (e\<lparr>encrypt_pages2_rc := r\<rparr>) s data offset sz = Inr (rc, s')"
  shows "i_size s' = offset + sz"
proof -
  let ?e = "e\<lparr>encrypt_pages2_rc := r\<rparr>"
  let ?nrpgs = "if sz AND (PAGE_SIZE - 1) \<noteq> 0 then sz div PAGE_SIZE + 1 else sz div PAGE_SIZE"
  let ?pos = "if i_size s < offset then i_size s else offset"
  let ?loop = "ecryptfs_write2_loop ?e data offset sz ?pos 0 0 (replicate ?nrpgs None) 0 s"
  from grabs have grabs': "\<forall>pos. write_begin_page ?e pos = PagePtr"
    by simp
  show ?thesis
  proof (cases ?loop)
    case (Inl f)
    with ret alloc show ?thesis
      by (simp add: ecryptfs_write2_def Let_def split: if_splits)
  next
    case (Inr res)
    obtain ex rc1 pgs1 s1 where res: "res = (ex, rc1, pgs1, s1)"
      by (cases res) 
    from write2_loop_encrypted [OF enc grabs' Inr [unfolded res]]
    have ex: "ex = Fallthrough" and enc1: "ECRYPTFS_ENCRYPTED s1" and sz1: "i_size s1 = i_size s"
      by simp_all
    from ret alloc Inr res ex enc1 ext show ?thesis
      by (auto simp: ecryptfs_write2_def Let_def ecryptfs_encrypt_pages2_def
            split: if_splits sum.splits prod.splits)
  qed
qed


text \<open>The theorem at an empty encrypted file, one byte written at offset 0, the group
  encryption failing with \<^verbatim>\<open>-EIO\<close>.\<close>

theorem write2_size_regardless_witness:
  "ECRYPTFS_ENCRYPTED (small_file True [])
   \<and> i_size (small_file True []) < 0 + 1
   \<and> (\<forall>pos. write_begin_page env_ok pos = PagePtr)
   \<and> \<not> kmalloc_fails env_ok
   \<and> write_rc (ecryptfs_write2 (env_ok\<lparr>encrypt_pages2_rc := - 5\<rparr>) (small_file True [])
        x_buf 0 1) = Some 0
   \<and> after_write i_size (ecryptfs_write2 (env_ok\<lparr>encrypt_pages2_rc := - 5\<rparr>)
        (small_file True []) x_buf 0 1) = Some (0 + 1)"
proof -
  have enc: "ECRYPTFS_ENCRYPTED (small_file True [])"
    and ext: "i_size (small_file True []) < 0 + 1"
    and grabs: "\<forall>pos. write_begin_page env_ok pos = PagePtr"
    and alloc: "\<not> kmalloc_fails env_ok"
    by (simp_all add: small_file_def env_ok_def)
  have rc: "write_rc (ecryptfs_write2 (env_ok\<lparr>encrypt_pages2_rc := - 5\<rparr>) (small_file True [])
        x_buf 0 1) = Some 0"
    by (simp add: eval_defs)
  then obtain s' where ret: "ecryptfs_write2 (env_ok\<lparr>encrypt_pages2_rc := - 5\<rparr>)
        (small_file True []) x_buf 0 1 = Inr (0, s')"
    by (auto simp: write_rc_def split: sum.splits)
  from write2_size_regardless [OF enc ext grabs alloc ret]
  have "i_size s' = 0 + 1" .
  with ret have "after_write i_size (ecryptfs_write2 (env_ok\<lparr>encrypt_pages2_rc := - 5\<rparr>)
        (small_file True []) x_buf 0 1) = Some (0 + 1)"
    by (simp add: after_write_def)
  with enc ext grabs alloc rc show ?thesis
    by blast
qed

subsection \<open>The loops of the batched read\<close>

lemma read2_grab_all:
  assumes "\<forall>i. \<not> grab_cache_page_fails e i" and "length ps = nr" and "pi \<le> nr"
  shows "ecryptfs_read2_grab e False nr pi rc (Some ps) s
           = Inr (Fallthrough, rc, Some (take pi ps @ map Some [pi..<nr]), grabbed s [pi..<nr])"
  using assms
proof (induction "nr - pi" arbitrary: pi ps s)
  case 0
  then show ?case
    by (simp add: ecryptfs_read2_grab.simps grabbed_def)
next
  case (Suc n)
  then have lt: "pi < nr" by simp
  let ?s1 = "lock_page (get_page s pi) pi"
  let ?ps = "ps[pi := Some pi]"
  from Suc lt have step: "ecryptfs_read2_grab e False nr pi rc (Some ps) s
      = ecryptfs_read2_grab e False nr (pi + 1) rc (Some ?ps) ?s1"
    by (subst ecryptfs_read2_grab.simps) (simp add: grab_cache_page_def read2_fill_def)
  from Suc lt have "ecryptfs_read2_grab e False nr (pi + 1) rc (Some ?ps) ?s1
      = Inr (Fallthrough, rc, Some (take (pi + 1) ?ps @ map Some [pi + 1..<nr]),
             grabbed ?s1 [pi + 1..<nr])"
    by (intro Suc.hyps(1)) simp_all
  moreover from Suc lt have "take (pi + 1) ?ps = take pi ps @ [Some pi]"
    by (simp add: take_Suc_conv_app_nth)
  moreover from lt have "[pi..<nr] = pi # [pi + 1..<nr]"
    by (simp add: upt_conv_Cons)
  ultimately show ?case
    using step by (simp add: grabbed_def)
qed

lemma read2_grab_null:
  assumes "\<not> grab_cache_page_fails e 0" and "0 < nr"
  shows "ecryptfs_read2_grab e nodec nr 0 rc None s = Inl NullDereference"
  using assms
  by (subst ecryptfs_read2_grab.simps)
     (simp add: grab_cache_page_def read2_fill_def readpage_def split: prod.splits)

lemma those_map_Some [simp]: "those (map Some xs) = Some xs"
  by (induction xs) simp_all

lemma batch_pages_full [simp]: "batch_pages (map Some [0..<n]) n = Inr [0..<n]"
  by (simp add: batch_pages_def)

lemma read2_walk_result:
  assumes "ecryptfs_read2_walk rc pgs offset sz pos w d pi data s = Inr (w', data', s')"
  shows "w' = w + (offset + sz - pos)
         \<and> (\<forall>i. contents (i_mapping s' i) = contents (i_mapping s i))
         \<and> (\<forall>k < d. data' k = data k)"
  using assms
proof (induction rc pgs offset sz pos w d pi data s rule: ecryptfs_read2_walk.induct)
  case (1 rc pgs offset sz pos w d pi data s)
  show ?case
  proof (cases "pos < offset + sz")
    case False
    with "1.prems" show ?thesis
      by (simp add: ecryptfs_read2_walk.simps)
  next
    case True
    let ?n = "read2_num_bytes offset sz pos"
    from True "1.prems" obtain ps pg where ps: "pgs = Some ps" "\<not> length ps \<le> pi" "ps ! pi = Some pg"
      by (subst (asm) ecryptfs_read2_walk.simps) (auto simp: Let_def split: option.splits if_splits)
    let ?data1 = "copy_to_user data d (contents (i_mapping s pg)) (take_bit PAGE_SHIFT pos) ?n"
    let ?s1 = "if rc \<noteq> 0 then ClearPageUptodate s pg else SetPageUptodate s pg"
    let ?s2 = "put_page (unlock_page ?s1 pg) pg"
    from True ps "1.prems"
    have rec: "ecryptfs_read2_walk rc pgs offset sz (pos + ?n) (w + ?n) (d + ?n) (pi + 1) ?data1 ?s2
                 = Inr (w', data', s')"
      by (subst (asm) ecryptfs_read2_walk.simps) (simp add: Let_def)
    have n: "?n \<le> offset + sz - pos"
      by (simp add: read2_num_bytes_def Let_def)
    from "1.IH" [OF True refl refl ps refl refl refl rec]
    have IH: "w' = w + ?n + (offset + sz - (pos + ?n))"
      "\<forall>i. contents (i_mapping s' i) = contents (i_mapping ?s2 i)"
      "\<forall>k < d + ?n. data' k = ?data1 k"
      by simp_all
    from IH(1) n True have "w' = w + (offset + sz - pos)" by simp
    moreover have "\<forall>i. contents (i_mapping s' i) = contents (i_mapping s i)"
      using IH(2) by (simp add: page_ops)
    moreover have "\<forall>k < d. data' k = data k"
      using IH(3) by (simp add: copy_to_user_def)
    ultimately show ?thesis by simp
  qed
qed

lemma read2_walk_data:
  assumes "ecryptfs_read2_walk rc pgs offset sz pos w d pi data s = Inr (w', data', s')"
    and "pgs = Some ps" and "\<forall>i < length ps. ps ! i = Some i"
    and "pos \<le> q" and "q < offset + sz"
  shows "data' (d + (q - pos))
           = contents (i_mapping s (pi + (q div PAGE_SIZE - pos div PAGE_SIZE))) (q mod PAGE_SIZE)
         \<and> pi + (q div PAGE_SIZE - pos div PAGE_SIZE) < length ps"
  using assms
proof (induction rc pgs offset sz pos w d pi data s rule: ecryptfs_read2_walk.induct)
  case (1 rc pgs offset sz pos w d pi data s)
  from "1.prems" have True: "pos < offset + sz" by simp
  let ?n = "read2_num_bytes offset sz pos"
  from True "1.prems" have len: "\<not> length ps \<le> pi"
    by (subst (asm) ecryptfs_read2_walk.simps) (auto simp: Let_def split: option.splits if_splits)
  with "1.prems" have pg: "ps ! pi = Some pi" by simp
  let ?data1 = "copy_to_user data d (contents (i_mapping s pi)) (take_bit PAGE_SHIFT pos) ?n"
  let ?s1 = "if rc \<noteq> 0 then ClearPageUptodate s pi else SetPageUptodate s pi"
  let ?s2 = "put_page (unlock_page ?s1 pi) pi"
  from True len pg "1.prems"
  have rec: "ecryptfs_read2_walk rc pgs offset sz (pos + ?n) (w + ?n) (d + ?n) (pi + 1) ?data1 ?s2
               = Inr (w', data', s')"
    by (subst (asm) ecryptfs_read2_walk.simps) (simp add: Let_def)
  have n_le: "?n \<le> PAGE_SIZE - pos mod PAGE_SIZE"
    by (simp add: read2_num_bytes_def Let_def take_bit_PAGE)
  show ?case
  proof (cases "q < pos + ?n")
    case True
    with \<open>pos \<le> q\<close> n_le have "q < pos + (PAGE_SIZE - pos mod PAGE_SIZE)" by simp
    from same_page [OF \<open>pos \<le> q\<close> this]
    have sp: "q div PAGE_SIZE = pos div PAGE_SIZE" "q mod PAGE_SIZE = pos mod PAGE_SIZE + (q - pos)"
      by simp_all
    define k where "k = q - pos"
    from True \<open>pos \<le> q\<close> have k: "k < ?n" by (simp add: k_def)
    then have "d + k < d + ?n" by simp
    with read2_walk_result [OF rec] have "data' (d + k) = ?data1 (d + k)"
      by blast
    also from k have "\<dots> = contents (i_mapping s pi) (pos mod PAGE_SIZE + k)"
      by (simp add: copy_to_user_def take_bit_PAGE)
    finally have "data' (d + (q - pos))
        = contents (i_mapping s pi) (pos mod PAGE_SIZE + (q - pos))"
      by (simp add: k_def)
    then show ?thesis using sp len by simp
  next
    case False
    then have ge: "pos + ?n \<le> q" by simp
    with \<open>q < offset + sz\<close> have n_eq: "?n = PAGE_SIZE - pos mod PAGE_SIZE"
      by (simp add: read2_num_bytes_def Let_def take_bit_PAGE split: if_splits)
    have np: "(pos + ?n) div PAGE_SIZE = pos div PAGE_SIZE + 1"
      unfolding n_eq by (rule next_page) simp
    from ge have "(pos + ?n) div PAGE_SIZE \<le> q div PAGE_SIZE"
      by (rule div_le_mono)
    with np have qd: "pos div PAGE_SIZE + 1 \<le> q div PAGE_SIZE" by simp
    from "1.IH" [OF True refl refl \<open>pgs = Some ps\<close> len pg refl refl refl rec \<open>pgs = Some ps\<close>
        \<open>\<forall>i < length ps. ps ! i = Some i\<close> ge \<open>q < offset + sz\<close>]
    have ih: "data' (d + ?n + (q - (pos + ?n)))
            = contents (i_mapping ?s2 (pi + 1 + (q div PAGE_SIZE - (pos + ?n) div PAGE_SIZE)))
                (q mod PAGE_SIZE)
          \<and> pi + 1 + (q div PAGE_SIZE - (pos + ?n) div PAGE_SIZE) < length ps" .
    from ge have e1: "d + ?n + (q - (pos + ?n)) = d + (q - pos)" by simp
    from np qd have e2: "pi + 1 + (q div PAGE_SIZE - (pos + ?n) div PAGE_SIZE)
        = pi + (q div PAGE_SIZE - pos div PAGE_SIZE)" by simp
    have e3: "\<And>i. contents (i_mapping ?s2 i) = contents (i_mapping s i)"
      by (simp add: page_ops)
    from ih show ?thesis
      unfolding e1 e2 e3 .
  qed
qed


lemma nr_pages_zero:
  assumes "drop_bit PAGE_SHIFT (n + PAGE_SIZE - 1) = 0"
  shows "n = 0"
proof -
  from assms have "(n + PAGE_SIZE - 1) div PAGE_SIZE = 0"
    by (simp add: drop_bit_PAGE)
  then have "n + PAGE_SIZE - 1 < PAGE_SIZE"
    using PAGE_SIZE_pos by (auto simp: div_eq_0_iff)
  then show ?thesis by simp
qed

text \<open>The read of a file that needs decryption, when the array is allocated and every page
  is grabbed: the batch is the pages \<open>0 ..< nr_pages\<close>.\<close>

lemma read2_decrypting:
  assumes "ECRYPTFS_ENCRYPTED s" and "\<not> ECRYPTFS_VIEW_AS_ENCRYPTED s"
    and "\<not> kmalloc_fails e" and "\<forall>i. \<not> grab_cache_page_fails e i"
    and "offset < i_size s"
    and sz': "sz' = min sz (i_size s)"
    and nr: "nr = drop_bit PAGE_SHIFT (sz' + PAGE_SIZE - 1)"
    and s2: "s2 = (if decrypt_pages_rc e = 0 then foldl fill_page (grabbed s [0..<nr]) [0..<nr]
                   else grabbed s [0..<nr])"
  shows "ecryptfs_read2 e s data offset sz =
     (case ecryptfs_read2_walk (decrypt_pages_rc e) (Some (map Some [0..<nr]))
             offset sz' offset 0 0 0 data s2 of
        Inl f \<Rightarrow> Inl f
      | Inr (written, data', s3) \<Rightarrow> Inr (int written, data', s3\<lparr>accessed := True\<rparr>))"
proof -
  have szc: "(if i_size s < sz then i_size s else sz) = sz'"
    by (simp add: min_def sz')
  from assms(1,2) have nd: "(if ECRYPTFS_ENCRYPTED s then ECRYPTFS_VIEW_AS_ENCRYPTED s else True) = False"
    by simp
  from assms(4) have grab: "ecryptfs_read2_grab e False nr 0 0 (Some (replicate nr None)) s
      = Inr (Fallthrough, 0, Some (map Some [0..<nr]), grabbed s [0..<nr])"
    using read2_grab_all [of e "replicate nr None" nr 0 0 s] by simp
  have dec: "ecryptfs_decrypt_pages e (grabbed s [0..<nr]) (Some (map Some [0..<nr])) nr
      = Inr (decrypt_pages_rc e, s2)"
    by (simp add: ecryptfs_decrypt_pages_def Let_def s2)
  show ?thesis
    unfolding ecryptfs_read2_def szc Let_def nd nr [symmetric]
    using assms(3,5) by (simp add: grab dec)
qed

lemma read2_not_decrypting:
  assumes nodec: "(if ECRYPTFS_ENCRYPTED s then ECRYPTFS_VIEW_AS_ENCRYPTED s else True)"
    and "\<not> grab_cache_page_fails e 0"
    and "offset < i_size s"
    and ret: "ecryptfs_read2 e s data offset sz = Inr (n, data', s')"
  shows "min sz (i_size s) = 0 \<and> n = 0"
proof -
  define sz' where "sz' = min sz (i_size s)"
  define nr where "nr = drop_bit PAGE_SHIFT (sz' + PAGE_SIZE - 1)"
  have szc: "(if i_size s < sz then i_size s else sz) = sz'"
    by (simp add: min_def sz'_def)
  from nodec have nd: "(if ECRYPTFS_ENCRYPTED s then ECRYPTFS_VIEW_AS_ENCRYPTED s else True) = True"
    by simp
  have unf: "ecryptfs_read2 e s data offset sz =
      (case ecryptfs_read2_grab e True nr 0 0 None s of
         Inl f \<Rightarrow> Inl f
       | Inr (Jumped_out, rc, pgs1, s1) \<Rightarrow> Inr (0, data, s1\<lparr>accessed := True\<rparr>)
       | Inr (Fallthrough, rc, pgs1, s1) \<Rightarrow>
           (case ecryptfs_read2_walk rc pgs1 offset sz' offset 0 0 0 data s1 of
              Inl f \<Rightarrow> Inl f
            | Inr (written, data', s3) \<Rightarrow> Inr (int written, data', s3\<lparr>accessed := True\<rparr>)))"
    unfolding ecryptfs_read2_def szc Let_def nd nr_def [symmetric]
    using assms(3) by (simp split: sum.splits loop_exit.splits prod.splits)
  have "nr = 0"
  proof (rule ccontr)
    assume "nr \<noteq> 0"
    then have "ecryptfs_read2_grab e True nr 0 0 None s = Inl NullDereference"
      using read2_grab_null [OF assms(2)] by simp
    with ret unf show False by simp
  qed
  then have z: "sz' = 0" unfolding nr_def by (rule nr_pages_zero)
  have "ecryptfs_read2_grab e True 0 0 0 None s = Inr (Fallthrough, 0, None, s)"
    by (simp add: ecryptfs_read2_grab.simps)
  with ret unf \<open>nr = 0\<close> z have "n = 0"
    by (simp add: ecryptfs_read2_walk.simps)
  with z show ?thesis by (simp add: sz'_def)
qed



lemma shifted_position:
  fixes P :: nat
  assumes "p \<le> q"
  shows "(q div P - p div P) * P + q mod P = q - p div P * P"
proof -
  define a where "a = q div P"
  define b where "b = p div P"
  define r where "r = q mod P"
  from assms have "b \<le> a" unfolding a_def b_def by (rule div_le_mono)
  then have "b * P \<le> a * P" by simp
  have q: "q = a * P + r" by (simp add: a_def r_def)
  have "(a - b) * P = a * P - b * P" by (simp add: diff_mult_distrib)
  with \<open>b * P \<le> a * P\<close> have "(a - b) * P + r = a * P + r - b * P" by simp
  then show ?thesis unfolding q [symmetric] by (simp add: a_def b_def r_def)
qed

lemma fill_page_lower [simp]: "lower_bytes (fill_page s idx) = lower_bytes s"
  by (simp add: fill_page_def)

lemma foldl_fill_page_contents:
  "contents (i_mapping (foldl fill_page s xs) k)
     = (if k \<in> set xs then (\<lambda>i. lower_bytes s (k * PAGE_SIZE + i))
        else contents (i_mapping s k))"
proof (induction xs arbitrary: s)
  case Nil
  show ?case by simp
next
  case (Cons x xs)
  show ?case
    by (simp add: Cons.IH) (simp add: fill_page_def)
qed

lemma grabbed_contents [simp]:
  "contents (i_mapping (grabbed s xs) k) = contents (i_mapping s k)"
  by (induction xs arbitrary: s) (simp_all add: grabbed_def page_ops)

lemma read2_bytes:
  assumes "\<not> kmalloc_fails e" and "\<forall>i. \<not> grab_cache_page_fails e i"
    and "offset < i_size s"
    and ret: "ecryptfs_read2 e s data offset sz = Inr (n, data', s')"
    and j: "j < min sz (i_size s)"
  shows "data' j = contents (i_mapping s' ((offset + j) div PAGE_SIZE - offset div PAGE_SIZE))
                     ((offset + j) mod PAGE_SIZE)"
    and "decrypt_pages_rc e = 0
         \<Longrightarrow> data' j = lower_bytes s (offset + j - offset div PAGE_SIZE * PAGE_SIZE)"
proof -
  let ?sz = "min sz (i_size s)"
  let ?nr = "drop_bit PAGE_SHIFT (?sz + PAGE_SIZE - 1)"
  let ?ps = "map Some [0..<?nr]"
  let ?s1 = "grabbed s [0..<?nr]"
  let ?s2 = "if decrypt_pages_rc e = 0 then foldl fill_page ?s1 [0..<?nr] else ?s1"
  let ?walk = "ecryptfs_read2_walk (decrypt_pages_rc e) (Some ?ps) offset ?sz offset 0 0 0 data ?s2"
  let ?k = "(offset + j) div PAGE_SIZE - offset div PAGE_SIZE"
  have dec: "ECRYPTFS_ENCRYPTED s \<and> \<not> ECRYPTFS_VIEW_AS_ENCRYPTED s"
  proof (rule ccontr)
    assume "\<not> ?thesis"
    then have "(if ECRYPTFS_ENCRYPTED s then ECRYPTFS_VIEW_AS_ENCRYPTED s else True)"
      by auto
    from read2_not_decrypting [OF this _ assms(3) ret] assms(2) j
    show False by simp
  qed
  with assms have unf: "ecryptfs_read2 e s data offset sz =
      (case ?walk of Inl f \<Rightarrow> Inl f
       | Inr (written, data', s3) \<Rightarrow> Inr (int written, data', s3\<lparr>accessed := True\<rparr>))"
    by (intro read2_decrypting) simp_all
  with ret obtain w s3 where walk: "?walk = Inr (w, data', s3)"
    and s': "s' = s3\<lparr>accessed := True\<rparr>"
    by (auto split: sum.splits)
  from read2_walk_result [OF walk]
  have cont: "\<And>i. contents (i_mapping s3 i) = contents (i_mapping ?s2 i)"
    by simp
  have ident: "\<forall>i < length ?ps. ?ps ! i = Some i"
    by simp
  from j have "offset + j < offset + ?sz" by simp
  from read2_walk_data [OF walk refl ident _ this]
  have d: "data' (0 + (offset + j - offset)) = contents (i_mapping ?s2 (0 + ?k)) ((offset + j) mod PAGE_SIZE)"
    and k: "0 + ?k < length ?ps"
    by simp_all
  from d have d': "data' j = contents (i_mapping ?s2 ?k) ((offset + j) mod PAGE_SIZE)"
    by simp
  then show "data' j = contents (i_mapping s' ?k) ((offset + j) mod PAGE_SIZE)"
    by (simp add: s' cont)
  show "data' j = lower_bytes s (offset + j - offset div PAGE_SIZE * PAGE_SIZE)"
    if ok: "decrypt_pages_rc e = 0"
  proof -
    from k have "?k \<in> set [0..<?nr]" by simp
    with d' ok have "data' j = lower_bytes s (?k * PAGE_SIZE + (offset + j) mod PAGE_SIZE)"
      by (simp add: foldl_fill_page_contents)
    also have "?k * PAGE_SIZE + (offset + j) mod PAGE_SIZE = offset + j - offset div PAGE_SIZE * PAGE_SIZE"
      by (rule shifted_position) simp
    finally show ?thesis .
  qed
qed

subsection \<open>What a batched read returns\<close>






text \<open>Claim C3: in a call of \<^verbatim>\<open>ecryptfs_read2\<close> on a file that needs decryption, whose
  array is allocated and whose pages are grabbed, the acquisition loop fills the batch with
  the pages of the cache at the indices \<open>0 ..< nr_pages\<close>, each referenced and locked,
  whatever the offset; these are the pages decrypted; and the byte returned for the
  position \<open>offset + j\<close> is taken from the batch entry counted from the first step,
  \<open>(offset + j) div PAGE_SIZE - offset div PAGE_SIZE\<close>, not from the page of the position.
  After a successful decryption it is the byte of the file \<open>offset div PAGE_SIZE\<close> pages
  before the position.\<close>

theorem read2_batch_counted_from_zero:
  assumes enc: "ECRYPTFS_ENCRYPTED s" and view: "\<not> ECRYPTFS_VIEW_AS_ENCRYPTED s"
    and alloc: "\<not> kmalloc_fails e"
    and grabs: "\<forall>i. \<not> grab_cache_page_fails e i"
    and off: "offset < i_size s"
    and nr: "nr_pages = drop_bit PAGE_SHIFT (min sz (i_size s) + PAGE_SIZE - 1)"
    and ret: "ecryptfs_read2 e s data offset sz = Inr (n, data', s')"
  shows "ecryptfs_read2_grab e False nr_pages 0 0 (Some (replicate nr_pages None)) s
           = Inr (Fallthrough, 0, Some (map Some [0..<nr_pages]), grabbed s [0..<nr_pages])
         \<and> ecryptfs_decrypt_pages e (grabbed s [0..<nr_pages]) (Some (map Some [0..<nr_pages]))
               nr_pages
             = Inr (decrypt_pages_rc e,
                    if decrypt_pages_rc e = 0
                    then foldl fill_page (grabbed s [0..<nr_pages]) [0..<nr_pages]
                    else grabbed s [0..<nr_pages])
         \<and> (\<forall>j < min sz (i_size s).
               data' j = contents (i_mapping s' ((offset + j) div PAGE_SIZE - offset div PAGE_SIZE))
                           ((offset + j) mod PAGE_SIZE)
               \<and> (decrypt_pages_rc e = 0 \<longrightarrow>
                    data' j = lower_bytes s (offset + j - offset div PAGE_SIZE * PAGE_SIZE)))"
proof -
  from grabs have "ecryptfs_read2_grab e False nr_pages 0 0 (Some (replicate nr_pages None)) s
      = Inr (Fallthrough, 0, Some (map Some [0..<nr_pages]), grabbed s [0..<nr_pages])"
    using read2_grab_all [of e "replicate nr_pages None" nr_pages 0 0 s] by simp
  moreover have "ecryptfs_decrypt_pages e (grabbed s [0..<nr_pages])
        (Some (map Some [0..<nr_pages])) nr_pages
      = Inr (decrypt_pages_rc e,
             if decrypt_pages_rc e = 0
             then foldl fill_page (grabbed s [0..<nr_pages]) [0..<nr_pages]
             else grabbed s [0..<nr_pages])"
    by (simp add: ecryptfs_decrypt_pages_def Let_def)
  moreover have "data' j = contents (i_mapping s' ((offset + j) div PAGE_SIZE - offset div PAGE_SIZE))
                           ((offset + j) mod PAGE_SIZE)
               \<and> (decrypt_pages_rc e = 0 \<longrightarrow>
                    data' j = lower_bytes s (offset + j - offset div PAGE_SIZE * PAGE_SIZE))"
    if "j < min sz (i_size s)" for j
    using read2_bytes [OF alloc grabs off ret that] by simp
  ultimately show ?thesis by blast
qed


text \<open>The theorem at the file of 4097 bytes, read at offset 4096 with length 1: the batch
  is page 0 alone, and the byte returned is the \<open>A\<close> of position 0, where position 4096
  holds \<open>B\<close>.\<close>

theorem read2_batch_counted_from_zero_witness:
  "ECRYPTFS_ENCRYPTED two_page_file
   \<and> \<not> ECRYPTFS_VIEW_AS_ENCRYPTED two_page_file
   \<and> \<not> kmalloc_fails env_ok
   \<and> (\<forall>i. \<not> grab_cache_page_fails env_ok i)
   \<and> (4096::nat) < i_size two_page_file
   \<and> (1::nat) = drop_bit PAGE_SHIFT (min 1 (i_size two_page_file) + PAGE_SIZE - 1)
   \<and> ecryptfs_read2_grab env_ok False 1 0 0 (Some (replicate 1 None)) two_page_file
       = Inr (Fallthrough, 0, Some (map Some [0..<1]), grabbed two_page_file [0..<1])
   \<and> read_byte 0 (ecryptfs_read2 env_ok two_page_file ff_buf 4096 1)
       = Some (lower_bytes two_page_file (4096 + 0 - 4096 div PAGE_SIZE * PAGE_SIZE))
   \<and> read_byte 0 (ecryptfs_read2 env_ok two_page_file ff_buf 4096 1) = Some 0x41
   \<and> lower_at 4096 two_page_file = 0x42"
proof -
  have enc: "ECRYPTFS_ENCRYPTED two_page_file"
    and view: "\<not> ECRYPTFS_VIEW_AS_ENCRYPTED two_page_file"
    and alloc: "\<not> kmalloc_fails env_ok"
    and grabs: "\<forall>i. \<not> grab_cache_page_fails env_ok i"
    and off: "(4096::nat) < i_size two_page_file"
    and nr: "(1::nat) = drop_bit PAGE_SHIFT (min 1 (i_size two_page_file) + PAGE_SIZE - 1)"
    and ok: "decrypt_pages_rc env_ok = 0"
    and low: "lower_at 4096 two_page_file = 0x42"
    by (simp_all add: two_page_file_def env_ok_def PAGE_SIZE_def PAGE_SHIFT_def
          drop_bit_eq_div lower_at_def)
  have b: "read_byte 0 (ecryptfs_read2 env_ok two_page_file ff_buf 4096 1) = Some 0x41"
    by (simp add: two_page_file_def eval_defs)
  then obtain n data' s'
    where ret: "ecryptfs_read2 env_ok two_page_file ff_buf 4096 1 = Inr (n, data', s')"
    by (auto simp: read_byte_def split: sum.splits)
  note T = read2_batch_counted_from_zero [OF enc view alloc grabs off nr ret]
  from T have g: "ecryptfs_read2_grab env_ok False 1 0 0 (Some (replicate 1 None)) two_page_file
       = Inr (Fallthrough, 0, Some (map Some [0..<1]), grabbed two_page_file [0..<1])"
    by (rule conjunct1)
  have j: "0 < min 1 (i_size two_page_file)"
    by (simp add: two_page_file_def)
  from T [THEN conjunct2, THEN conjunct2, THEN spec, of 0] j ok
  have d: "data' 0 = lower_bytes two_page_file (4096 + 0 - 4096 div PAGE_SIZE * PAGE_SIZE)"
    by blast
  from ret d have "read_byte 0 (ecryptfs_read2 env_ok two_page_file ff_buf 4096 1)
       = Some (lower_bytes two_page_file (4096 + 0 - 4096 div PAGE_SIZE * PAGE_SIZE))"
    by (simp add: read_byte_def)
  with enc view alloc grabs off nr g b low show ?thesis
    by blast
qed


subsection \<open>One step of the sequential write\<close>

lemma page_position: "drop_bit PAGE_SHIFT p * PAGE_SIZE + take_bit PAGE_SHIFT p = p"
  by (simp add: take_bit_PAGE drop_bit_PAGE)

lemma errno_val_nonzero [simp]: "errno_val err \<noteq> 0"
  by (cases err) simp_all

lemma PAGE_SIZE_nonzero [simp]: "PAGE_SIZE \<noteq> 0"
  by (simp add: PAGE_SIZE_def)

lemma write_step_factored:
  "ecryptfs_write_step e data offset sz pos d s =
     (if fatal_signal_pending e pos then Inr (Break (- errno_val EINTR))
      else case ecryptfs_get_locked_page e pos s (drop_bit PAGE_SHIFT pos) of
             Inl err \<Rightarrow> Inr (Goto_out (- errno_val err) s)
           | Inr s1 \<Rightarrow>
               (case (if ECRYPTFS_ENCRYPTED (step_page s1 data offset sz pos d)
                      then Inr (ecryptfs_encrypt_page e pos (step_page s1 data offset sz pos d)
                                  (drop_bit PAGE_SHIFT pos))
                      else ecryptfs_write_lower_page_segment e pos
                             (step_page s1 data offset sz pos d) (drop_bit PAGE_SHIFT pos)
                             (take_bit PAGE_SHIFT pos)
                             (if offset \<le> pos then d + step_bytes offset sz pos else d)) of
                  Inl f \<Rightarrow> Inl f
                | Inr (rc, s5) \<Rightarrow>
                    if rc \<noteq> 0 then Inr (Goto_out rc (put_page s5 (drop_bit PAGE_SHIFT pos)))
                    else Inr (Next (pos + step_bytes offset sz pos)
                                (if offset \<le> pos then d + step_bytes offset sz pos else d)
                                (put_page s5 (drop_bit PAGE_SHIFT pos)))))"
  unfolding ecryptfs_write_step_def step_page_def step_bytes_def Let_def
  by (rule refl)

lemma acquired_fields [simp]:
  "ECRYPTFS_ENCRYPTED (acquired s idx) = ECRYPTFS_ENCRYPTED s"
  "i_size (acquired s idx) = i_size s"
  "lower_file (acquired s idx) = lower_file s"
  "lower_bytes (acquired s idx) = lower_bytes s"
  by (simp_all add: acquired_def page_ops)

lemma step_page_fields [simp]:
  "ECRYPTFS_ENCRYPTED (step_page s data offset sz pos d) = ECRYPTFS_ENCRYPTED s"
  "i_size (step_page s data offset sz pos d) = i_size s"
  "lower_file (step_page s data offset sz pos d) = lower_file s"
  "lower_bytes (step_page s data offset sz pos d) = lower_bytes s"
  by (simp_all add: step_page_def page_ops)

lemma step_page_acquired:
  fixes s data offset sz pos d
  defines "idx \<equiv> drop_bit PAGE_SHIFT pos" and "start \<equiv> take_bit PAGE_SHIFT pos"
  defines "t \<equiv> step_page (acquired s idx) data offset sz pos d"
  shows "PageUptodate (i_mapping t idx)"
    and "\<And>i. i \<noteq> idx \<Longrightarrow> i_mapping t i = i_mapping s i"
    and "\<And>k. k < start \<Longrightarrow> contents (i_mapping t idx) k
            = (if PageUptodate (i_mapping s idx) then contents (i_mapping s idx) k
               else lower_bytes s (idx * PAGE_SIZE + k))"
    and "\<And>k. pos < offset \<Longrightarrow> start \<le> k \<Longrightarrow> k < PAGE_SIZE \<Longrightarrow> contents (i_mapping t idx) k = 0"
proof -
  have lt: "start < PAGE_SIZE"
    by (simp add: start_def take_bit_PAGE)
  show "PageUptodate (i_mapping t idx)"
    by (simp add: t_def step_page_def acquired_def page_ops idx_def)
  show "i_mapping t i = i_mapping s i" if "i \<noteq> idx" for i
    using that by (simp add: t_def step_page_def acquired_def page_ops idx_def)
  show "contents (i_mapping t idx) k
            = (if PageUptodate (i_mapping s idx) then contents (i_mapping s idx) k
               else lower_bytes s (idx * PAGE_SIZE + k))" if "k < start" for k
    using that by (simp add: t_def step_page_def acquired_def page_ops idx_def start_def)
  show "contents (i_mapping t idx) k = 0" if "pos < offset" "start \<le> k" "k < PAGE_SIZE" for k
    using that lt by (simp add: t_def step_page_def acquired_def page_ops idx_def start_def)
qed

lemma errno_val_not_neg [simp]: "\<not> errno_val err < 0"
  by (cases err) simp_all

lemma write_lower_page_segment_done:
  assumes "ecryptfs_write_lower_page_segment e pos t idx start n = Inr (0, s5)"
  shows "s5 = t\<lparr>lower_bytes :=
                  (\<lambda>p. if push_bit PAGE_SHIFT idx + start \<le> p
                          \<and> p < push_bit PAGE_SHIFT idx + start + n
                        then contents (i_mapping t idx) (p - (push_bit PAGE_SHIFT idx + start))
                        else lower_bytes t p)\<rparr>"
  using assms
  by (auto simp: ecryptfs_write_lower_page_segment_def ecryptfs_write_lower_def kernel_write_def
        Let_def
      split: if_splits option.splits sum.splits prod.splits)

lemma write_step_stops:
  "ecryptfs_write_step e data offset sz pos d s = Inr (Break rc) \<Longrightarrow> rc \<noteq> 0"
  "ecryptfs_write_step e data offset sz pos d s = Inr (Goto_out rc s1) \<Longrightarrow> rc \<noteq> 0"
  by (auto simp: write_step_factored ecryptfs_get_locked_page_def
      split: if_splits sum.splits prod.splits option.splits)

lemma write_step_next:
  assumes st: "ecryptfs_write_step e data offset sz pos d s = Inr (Next pos' d' s1)"
  defines "idx \<equiv> drop_bit PAGE_SHIFT pos"
  defines "t \<equiv> step_page (acquired s idx) data offset sz pos d"
  shows "pos' = pos + step_bytes offset sz pos"
    and "ECRYPTFS_ENCRYPTED s \<Longrightarrow> s1 = put_page (store_page t idx) idx"
    and "\<not> ECRYPTFS_ENCRYPTED s \<Longrightarrow>
           s1 = put_page (t\<lparr>lower_bytes := (\<lambda>p. if pos \<le> p \<and> p < pos + d'
                             then contents (i_mapping t idx) (p - pos)
                             else lower_bytes s p)\<rparr>) idx"
proof -
  have pp: "push_bit PAGE_SHIFT (drop_bit PAGE_SHIFT pos) + take_bit PAGE_SHIFT pos = pos"
    using page_position [of pos] by (simp add: push_bit_eq_mult PAGE_SIZE_def)
  from st have ok: "\<not> fatal_signal_pending e pos"
    "ecryptfs_get_locked_page e pos s idx = Inr (acquired s idx)"
    by (auto simp: write_step_factored ecryptfs_get_locked_page_def acquired_def idx_def
        split: if_splits option.splits)
  from st have commit:
    "(case (if ECRYPTFS_ENCRYPTED s
            then Inr (ecryptfs_encrypt_page e pos t idx)
            else ecryptfs_write_lower_page_segment e pos t idx (take_bit PAGE_SHIFT pos)
                   (if offset \<le> pos then d + step_bytes offset sz pos else d)) of
        Inl f \<Rightarrow> Inl f
      | Inr (rc, s5) \<Rightarrow>
          if rc \<noteq> 0 then Inr (Goto_out rc (put_page s5 idx))
          else Inr (Next (pos + step_bytes offset sz pos)
                      (if offset \<le> pos then d + step_bytes offset sz pos else d)
                      (put_page s5 idx))) = Inr (Next pos' d' s1)"
    by (simp only: write_step_factored idx_def [symmetric] ok if_False sum.case t_def
          step_page_fields acquired_fields)
  from commit show "pos' = pos + step_bytes offset sz pos"
    by (simp split: if_splits sum.splits prod.splits)
  from commit have d': "d' = (if offset \<le> pos then d + step_bytes offset sz pos else d)"
    by (simp split: if_splits sum.splits prod.splits)
  from commit show "s1 = put_page (store_page t idx) idx" if "ECRYPTFS_ENCRYPTED s"
    using that by (simp add: ecryptfs_encrypt_page_def Let_def split: if_splits)
  show "s1 = put_page (t\<lparr>lower_bytes := (\<lambda>p. if pos \<le> p \<and> p < pos + d'
                             then contents (i_mapping t idx) (p - pos)
                             else lower_bytes s p)\<rparr>) idx" if plain: "\<not> ECRYPTFS_ENCRYPTED s"
  proof -
    from commit plain obtain s5
      where seg: "ecryptfs_write_lower_page_segment e pos t idx (take_bit PAGE_SHIFT pos) d'
                    = Inr (0, s5)"
        and s1: "s1 = put_page s5 idx"
      unfolding d' [symmetric]
      by (auto split: if_splits sum.splits prod.splits)
    have "lower_bytes t = lower_bytes s"
      by (simp add: t_def)
    with write_lower_page_segment_done [OF seg] s1 show ?thesis
      by (simp add: pp [unfolded idx_def [symmetric]] cong: if_cong)
  qed
qed

lemma step_bytes_bounds:
  assumes "pos < offset + sz"
  shows "0 < step_bytes offset sz pos"
    and "pos + step_bytes offset sz pos \<le> offset + sz"
    and "pos < offset \<Longrightarrow> pos + step_bytes offset sz pos \<le> offset"
    and "step_bytes offset sz pos \<le> PAGE_SIZE - pos mod PAGE_SIZE"
proof -
  have m: "pos mod PAGE_SIZE < PAGE_SIZE" by simp
  from assms m show "0 < step_bytes offset sz pos"
    unfolding step_bytes_def take_bit_PAGE by (auto split: if_splits)
  from assms m show "pos + step_bytes offset sz pos \<le> offset + sz"
    unfolding step_bytes_def take_bit_PAGE by (auto split: if_splits)
  from assms m show "step_bytes offset sz pos \<le> PAGE_SIZE - pos mod PAGE_SIZE"
    unfolding step_bytes_def take_bit_PAGE by (auto split: if_splits)
  from assms m show "pos + step_bytes offset sz pos \<le> offset" if "pos < offset"
    using that unfolding step_bytes_def take_bit_PAGE by (auto split: if_splits)
qed

lemma write_step_effect:
  assumes st: "ecryptfs_write_step e data offset sz pos d s = Inr (Next pos' d' s1)"
  defines "idx \<equiv> pos div PAGE_SIZE" and "start \<equiv> pos mod PAGE_SIZE"
  shows "PageUptodate (i_mapping s1 idx)"
    and "\<And>i. i \<noteq> idx \<Longrightarrow> PageUptodate (i_mapping s1 i) = PageUptodate (i_mapping s i)"
    and "\<And>i. i \<noteq> idx \<Longrightarrow> contents (i_mapping s1 i) = contents (i_mapping s i)"
    and "\<And>k. k < start \<Longrightarrow> contents (i_mapping s1 idx) k
            = (if PageUptodate (i_mapping s idx) then contents (i_mapping s idx) k
               else lower_bytes s (idx * PAGE_SIZE + k))"
    and "\<And>k. pos < offset \<Longrightarrow> start \<le> k \<Longrightarrow> k < PAGE_SIZE
            \<Longrightarrow> contents (i_mapping s1 idx) k = 0"
    and "\<And>p. ECRYPTFS_ENCRYPTED s \<Longrightarrow>
           lower_bytes s1 p = (if p div PAGE_SIZE = idx
                               then contents (i_mapping s1 idx) (p mod PAGE_SIZE)
                               else lower_bytes s p)"
    and "\<And>p. \<not> ECRYPTFS_ENCRYPTED s \<Longrightarrow> p < pos \<Longrightarrow> lower_bytes s1 p = lower_bytes s p"
    and "ECRYPTFS_ENCRYPTED s1 = ECRYPTFS_ENCRYPTED s"
    and "i_size s1 = i_size s"
proof -
  let ?t = "step_page (acquired s idx) data offset sz pos d"
  note pg = step_page_acquired [where s = s and pos = pos and data = data and offset = offset
      and sz = sz and d = d, unfolded drop_bit_PAGE take_bit_PAGE,
      folded idx_def start_def]
  note nx = write_step_next(2,3) [OF st, unfolded drop_bit_PAGE, folded idx_def]
  have s1: "i_mapping s1 = (i_mapping ?t)(idx := (i_mapping ?t idx)\<lparr>page_count := page_count (i_mapping ?t idx) - 1\<rparr>)"
    using nx by (cases "ECRYPTFS_ENCRYPTED s") (simp_all add: put_page_def)
  show "PageUptodate (i_mapping s1 idx)"
    using pg(1) by (simp add: s1)
  show "PageUptodate (i_mapping s1 i) = PageUptodate (i_mapping s i)" if "i \<noteq> idx" for i
    using pg(2) [OF that] that by (simp add: s1)
  show "contents (i_mapping s1 i) = contents (i_mapping s i)" if "i \<noteq> idx" for i
    using pg(2) [OF that] that by (simp add: s1)
  show "contents (i_mapping s1 idx) k
            = (if PageUptodate (i_mapping s idx) then contents (i_mapping s idx) k
               else lower_bytes s (idx * PAGE_SIZE + k))" if "k < start" for k
    using pg(3) [OF that] by (simp add: s1)
  show "contents (i_mapping s1 idx) k = 0" if "pos < offset" "start \<le> k" "k < PAGE_SIZE" for k
    using pg(4) [OF that] by (simp add: s1)
  show "lower_bytes s1 p = (if p div PAGE_SIZE = idx
                               then contents (i_mapping s1 idx) (p mod PAGE_SIZE)
                               else lower_bytes s p)" if "ECRYPTFS_ENCRYPTED s" for p
    using nx(1) [OF that]
    by (simp add: s1 put_page_def store_page_def drop_bit_PAGE take_bit_PAGE)
  show "lower_bytes s1 p = lower_bytes s p" if "\<not> ECRYPTFS_ENCRYPTED s" "p < pos" for p
    using nx(2) [OF that(1)] that(2) by (simp add: put_page_def)
  show "ECRYPTFS_ENCRYPTED s1 = ECRYPTFS_ENCRYPTED s" "i_size s1 = i_size s"
    using nx by (cases "ECRYPTFS_ENCRYPTED s"; simp add: put_page_def)+
qed

lemmas at_defs = zero_at_def page_at_def cached_at_def lower_at_def
  drop_bit_PAGE take_bit_PAGE

lemma write_step_zero_fills:
  assumes st: "ecryptfs_write_step e data offset sz pos d s = Inr (Next pos' d' s1)"
    and run: "pos < offset + sz" and hole: "pos < offset"
    and q: "pos \<le> q" "q < pos'"
  shows "zero_at q s1"
proof -
  note ef = write_step_effect [OF st]
  from write_step_next(1) [OF st] step_bytes_bounds(4) [OF run] q
  have lt: "q < pos + (PAGE_SIZE - pos mod PAGE_SIZE)" by simp
  from same_page [OF q(1) this]
  have qd: "q div PAGE_SIZE = pos div PAGE_SIZE"
    and qm: "q mod PAGE_SIZE = pos mod PAGE_SIZE + (q - pos)" by simp_all
  have z: "contents (i_mapping s1 (pos div PAGE_SIZE)) (q mod PAGE_SIZE) = 0"
    by (rule ef(5) [OF hole]) (use lt q(1) in \<open>simp_all add: qm\<close>)
  show ?thesis
    unfolding at_defs qd using ef(1) z ef(6) [of q] ef(8)
    by (simp add: qd)
qed

lemma write_step_keeps_zero:
  assumes st: "ecryptfs_write_step e data offset sz pos d s = Inr (Next pos' d' s1)"
    and q: "q < pos" and z: "zero_at q s"
  shows "zero_at q s1"
proof (cases "q div PAGE_SIZE = pos div PAGE_SIZE")
  case True
  note ef = write_step_effect [OF st]
  from earlier_same_page [OF q True] have "q mod PAGE_SIZE < pos mod PAGE_SIZE" .
  from ef(4) [OF this] z True
  have c: "contents (i_mapping s1 (pos div PAGE_SIZE)) (q mod PAGE_SIZE) = 0"
    by (simp add: at_defs)
  show ?thesis
    unfolding at_defs True using ef(1) c ef(6) [of q] ef(8)
    by (simp add: True)
next
  case False
  note ef = write_step_effect [OF st]
  from z ef(2,3) [OF False] ef(6) [of q] ef(8) False show ?thesis
    by (simp add: at_defs split: if_splits)
qed

subsection \<open>Writing beyond the end of the file\<close>

lemma write_loop_success:
  assumes "ecryptfs_write_loop e data offset sz pos d rc0 s = Inr (ex, 0, pos', s')"
    and "pos < offset + sz"
  shows "ex = Fallthrough \<and> pos' = offset + sz
         \<and> ECRYPTFS_ENCRYPTED s' = ECRYPTFS_ENCRYPTED s \<and> i_size s' = i_size s
         \<and> (\<forall>q < pos. zero_at q s \<longrightarrow> zero_at q s')
         \<and> (\<forall>q. pos \<le> q \<and> q < offset \<longrightarrow> zero_at q s')"
  using assms
proof (induction e data offset sz pos d rc0 s rule: ecryptfs_write_loop.induct)
  case (1 e data offset sz pos d rc0 s)
  note run = \<open>pos < offset + sz\<close>
  show ?case
  proof (cases "ecryptfs_write_step e data offset sz pos d s")
    case (Inl f)
    with run "1.prems" show ?thesis
      by (simp add: ecryptfs_write_loop.simps)
  next
    case (Inr st)
    show ?thesis
    proof (cases st)
      case (Break r)
      with Inr write_step_stops(1) have "r \<noteq> 0" by blast
      with run Inr Break "1.prems" show ?thesis
        by (simp add: ecryptfs_write_loop.simps)
    next
      case (Goto_out r t)
      with Inr write_step_stops(2) have "r \<noteq> 0" by blast
      with run Inr Goto_out "1.prems" show ?thesis
        by (simp add: ecryptfs_write_loop.simps)
    next
      case (Next pos1 d1 s1)
      with Inr have st: "ecryptfs_write_step e data offset sz pos d s = Inr (Next pos1 d1 s1)"
        by simp
      from run st "1.prems"(1)
      have rec: "ecryptfs_write_loop e data offset sz pos1 d1 0 s1 = Inr (ex, 0, pos', s')"
        by (simp add: ecryptfs_write_loop.simps)
      note p1 = write_step_next(1) [OF st]
      note bd = step_bytes_bounds [OF run]
      from p1 bd have adv: "pos < pos1" "pos1 \<le> offset + sz" by simp_all
      note ef = write_step_effect(8,9) [OF st]
      show ?thesis
      proof (cases "pos1 < offset + sz")
        case False
        with adv have end1: "pos1 = offset + sz" by simp
        with rec have fin: "ex = Fallthrough" "pos' = pos1" "s' = s1"
          by (simp_all add: ecryptfs_write_loop.simps)
        have "zero_at q s1" if "pos \<le> q" "q < offset" for q
        proof -
          from that have hole: "pos < offset" by simp
          from that end1 have "q < pos1" by simp
          from write_step_zero_fills [OF st run hole that(1) this] show ?thesis .
        qed
        with fin end1 ef write_step_keeps_zero [OF st]
        show ?thesis by simp
      next
        case True
        from "1.IH" [OF run Inr Next rec True]
        have IH: "ex = Fallthrough" "pos' = offset + sz"
          "ECRYPTFS_ENCRYPTED s' = ECRYPTFS_ENCRYPTED s1" "i_size s' = i_size s1"
          "\<And>q. q < pos1 \<Longrightarrow> zero_at q s1 \<Longrightarrow> zero_at q s'"
          "\<And>q. pos1 \<le> q \<Longrightarrow> q < offset \<Longrightarrow> zero_at q s'"
          by simp_all
        have keep: "zero_at q s'" if "q < pos" "zero_at q s" for q
        proof -
          from that adv have "q < pos1" by simp
          with IH(5) write_step_keeps_zero [OF st that] show ?thesis by simp
        qed
        have gap: "zero_at q s'" if "pos \<le> q" "q < offset" for q
        proof (cases "q < pos1")
          case True
          from that have hole: "pos < offset" by simp
          from write_step_zero_fills [OF st run hole that(1) True] IH(5) [OF True]
          show ?thesis by simp
        next
          case False
          with IH(6) that show ?thesis by simp
        qed
        from IH(1-4) ef keep gap show ?thesis by simp
      qed
    qed
  qed
qed

text \<open>What \<^verbatim>\<open>ecryptfs_write\<close> does to the gap: a call at an offset beyond the current size
  that succeeds (returns 0) ran its loop from the current size, not from the offset, to
  \<open>offset + sz\<close>; the size is then \<open>offset + sz\<close>; and every position of the gap from the
  old size to the offset lies in an up-to-date page of the cache holding 0 there, and for
  an encrypted file 0 is what was persisted there.\<close>

theorem write_beyond_size_zero_fills:
  assumes beyond: "i_size s < offset"
    and ret: "ecryptfs_write e s data offset sz = Inr (0, s')"
  shows "ecryptfs_write_loop e data offset sz (i_size s) 0 0 s
           = Inr (Fallthrough, 0, offset + sz, s'\<lparr>i_size := i_size s\<rparr>)
         \<and> i_size s' = offset + sz
         \<and> (\<forall>p. i_size s \<le> p \<and> p < offset \<longrightarrow>
               PageUptodate (page_at p s') \<and> cached_at p s' = 0
               \<and> (ECRYPTFS_ENCRYPTED s \<longrightarrow> lower_at p s' = 0))"
proof -
  let ?loop = "ecryptfs_write_loop e data offset sz (i_size s) 0 0 s"
  from beyond have run: "i_size s < offset + sz" by simp
  from ret beyond obtain ex rc pos1 s1 where loop: "?loop = Inr (ex, rc, pos1, s1)"
    by (cases ?loop) (auto simp: ecryptfs_write_def Let_def)
  have rc: "rc = 0"
  proof (rule ccontr)
    assume "rc \<noteq> 0"
    with ret beyond loop show False
      by (cases ex) (simp_all add: ecryptfs_write_def Let_def split: if_splits)
  qed
  from write_loop_success [OF loop [unfolded rc] run]
  have ex: "ex = Fallthrough" and pos1: "pos1 = offset + sz"
    and enc: "ECRYPTFS_ENCRYPTED s1 = ECRYPTFS_ENCRYPTED s" and sz1: "i_size s1 = i_size s"
    and gap: "\<And>q. i_size s \<le> q \<Longrightarrow> q < offset \<Longrightarrow> zero_at q s1"
    by simp_all
  from ret beyond loop rc ex pos1 run have s': "s' = s1\<lparr>i_size := offset + sz\<rparr>"
    by (simp add: ecryptfs_write_def Let_def split: if_splits)
  have restore: "s'\<lparr>i_size := i_size s\<rparr> = s1"
    by (simp add: s' sz1 [symmetric])
  have upd: "page_at q s' = page_at q s1"
    "cached_at q s' = cached_at q s1" "lower_at q s' = lower_at q s1" for q
    by (simp_all add: s' page_at_def cached_at_def lower_at_def)
  have "PageUptodate (page_at p s') \<and> cached_at p s' = 0
               \<and> (ECRYPTFS_ENCRYPTED s \<longrightarrow> lower_at p s' = 0)"
    if "i_size s \<le> p" "p < offset" for p
    using gap [OF that] enc
    by (simp add: upd zero_at_def)
  moreover have "i_size s' = offset + sz"
    by (simp add: s')
  ultimately show ?thesis
    using loop rc ex pos1 restore by (simp add: upd)
qed

text \<open>The theorem at an encrypted file of the five bytes \<open>HELLO\<close> and one byte written at
  offset 10: the size becomes 11, and position 7 of the gap holds 0 in the cache and in the
  lower file.\<close>

theorem write_beyond_size_zero_fills_witness:
  "i_size (small_file True [0x48, 0x45, 0x4C, 0x4C, 0x4F]) < 10
   \<and> write_rc (ecryptfs_write env_ok (small_file True [0x48, 0x45, 0x4C, 0x4C, 0x4F]) x_buf 10 1)
       = Some 0
   \<and> after_write i_size
        (ecryptfs_write env_ok (small_file True [0x48, 0x45, 0x4C, 0x4C, 0x4F]) x_buf 10 1)
       = Some (10 + 1)
   \<and> after_write (cached_at 7)
        (ecryptfs_write env_ok (small_file True [0x48, 0x45, 0x4C, 0x4C, 0x4F]) x_buf 10 1)
       = Some 0
   \<and> after_write (lower_at 7)
        (ecryptfs_write env_ok (small_file True [0x48, 0x45, 0x4C, 0x4C, 0x4F]) x_buf 10 1)
       = Some 0"
proof -
  let ?f = "small_file True [0x48, 0x45, 0x4C, 0x4C, 0x4F]"
  let ?w = "ecryptfs_write env_ok ?f x_buf 10 1"
  have beyond: "i_size ?f < 10" and enc: "ECRYPTFS_ENCRYPTED ?f"
    by (simp_all add: small_file_def)
  have rc: "write_rc ?w = Some 0"
    by (simp add: eval_defs)
  from rc obtain s' where ret: "?w = Inr (0, s')"
    by (auto simp: write_rc_def split: sum.splits)
  note T = write_beyond_size_zero_fills [OF beyond ret]
  from T have sz: "i_size s' = 10 + 1"
    by (rule conjunct2 [THEN conjunct1])
  have gap: "i_size ?f \<le> 7 \<and> (7::nat) < 10"
    by (simp add: small_file_def)
  from T [THEN conjunct2, THEN conjunct2, THEN spec, of 7] gap enc
  have s7: "cached_at 7 s' = 0" "lower_at 7 s' = 0"
    by blast+
  from ret sz s7 have
    "after_write i_size ?w = Some (10 + 1)"
    "after_write (cached_at 7) ?w = Some 0"
    "after_write (lower_at 7) ?w = Some 0"
    by (simp_all add: after_write_def)
  with beyond rc show ?thesis
    by blast
qed

subsection \<open>Further facts about the write and read paths\<close>

lemma write_lower_page_segment_signal:
  "ecryptfs_write_lower_page_segment (e\<lparr>fatal_signal_pending := f\<rparr>) pos s idx a n
     = ecryptfs_write_lower_page_segment e pos s idx a n"
  by (simp add: ecryptfs_write_lower_page_segment_def ecryptfs_write_lower_def kernel_write_def)

lemma write2_step_signal:
  "ecryptfs_write2_step (e\<lparr>fatal_signal_pending := f\<rparr>) data offset sz pos d pgs i s
     = ecryptfs_write2_step e data offset sz pos d pgs i s"
  unfolding ecryptfs_write2_step_def grab_cache_page_write_begin_def
    write_lower_page_segment_signal
  by simp

lemma write2_loop_signal:
  "ecryptfs_write2_loop (e\<lparr>fatal_signal_pending := f\<rparr>) data offset sz pos d rc pgs i s
     = ecryptfs_write2_loop e data offset sz pos d rc pgs i s"
proof (induction e data offset sz pos d rc pgs i s rule: ecryptfs_write2_loop.induct)
  case (1 e data offset sz pos d rc pgs i s)
  show ?case
  proof (cases "pos < offset + sz")
    case False
    then show ?thesis
      by (simp add: ecryptfs_write2_loop.simps)
  next
    case True
    show ?thesis
    proof (cases "ecryptfs_write2_step e data offset sz pos d pgs i s")
      case (Inl fl)
      with True show ?thesis
        by (simp add: ecryptfs_write2_loop.simps write2_step_signal)
    next
      case (Inr st)
      show ?thesis
      proof (cases st)
        case (Goto_out2 r t)
        with True Inr show ?thesis
          by (simp add: ecryptfs_write2_loop.simps write2_step_signal)
      next
        case (Next2 pos1 d1 pgs1 i1 s1)
        from "1.IH" [OF True Inr Next2] True Inr Next2 show ?thesis
          by (simp add: ecryptfs_write2_loop.simps [of _ _ _ _ pos] write2_step_signal)
      qed
    qed
  qed
qed

text \<open>The batched write never consults the signal: its result is the same whatever the
  signal oracle answers.\<close>

theorem write2_never_polls_signal:
  "ecryptfs_write2 (e\<lparr>fatal_signal_pending := f\<rparr>) s data offset sz
     = ecryptfs_write2 e s data offset sz"
proof -
  let ?e = "e\<lparr>fatal_signal_pending := f\<rparr>"
  have env: "kmalloc_fails ?e = kmalloc_fails e" "size_to_metadata_rc ?e = size_to_metadata_rc e"
    "\<And>t pgs n. ecryptfs_encrypt_pages2 ?e t pgs n = ecryptfs_encrypt_pages2 e t pgs n"
    by (simp_all add: ecryptfs_encrypt_pages2_def split: sum.splits)
  show ?thesis
    unfolding ecryptfs_write2_def write2_loop_signal env
    by (rule refl)
qed

text \<open>On a file that needs no decryption (plaintext, or viewed as encrypted) no array is
  allocated, and a read of at least one byte of a non-empty file stores the first page it
  grabs through the null pointer.\<close>

theorem read2_plain_file_faults:
  assumes nodec: "ECRYPTFS_ENCRYPTED s \<Longrightarrow> ECRYPTFS_VIEW_AS_ENCRYPTED s"
    and some: "0 < sz" "0 < i_size s"
    and grab: "\<not> grab_cache_page_fails e 0"
  shows "ecryptfs_read2 e s data offset sz = Inl NullDereference"
proof -
  define sz' where "sz' = min sz (i_size s)"
  define nr where "nr = drop_bit PAGE_SHIFT (sz' + PAGE_SIZE - 1)"
  have szc: "(if i_size s < sz then i_size s else sz) = sz'"
    by (simp add: min_def sz'_def)
  from nodec have nd: "(if ECRYPTFS_ENCRYPTED s then ECRYPTFS_VIEW_AS_ENCRYPTED s else True) = True"
    by simp
  from some have "0 < sz'" by (simp add: sz'_def)
  then have "PAGE_SIZE \<le> sz' + PAGE_SIZE - 1" by simp
  then have "PAGE_SIZE div PAGE_SIZE \<le> (sz' + PAGE_SIZE - 1) div PAGE_SIZE"
    by (rule div_le_mono)
  then have "0 < nr" by (simp add: nr_def drop_bit_PAGE)
  from read2_grab_null [OF grab this]
  have "ecryptfs_read2_grab e True nr 0 0 None s = Inl NullDereference" .
  then show ?thesis
    unfolding ecryptfs_read2_def szc Let_def nd nr_def [symmetric]
    by simp
qed

text \<open>The theorem at a plaintext file of five bytes.\<close>

theorem read2_plain_file_faults_witness:
  "(0::nat) < 1 \<and> 0 < i_size (small_file False [1, 2, 3, 4, 5])
   \<and> \<not> grab_cache_page_fails env_ok 0
   \<and> ecryptfs_read2 env_ok (small_file False [1, 2, 3, 4, 5]) ff_buf 0 1 = Inl NullDereference"
proof -
  have a: "ECRYPTFS_ENCRYPTED (small_file False [1, 2, 3, 4, 5])
      \<Longrightarrow> ECRYPTFS_VIEW_AS_ENCRYPTED (small_file False [1, 2, 3, 4, 5])"
    by (simp add: small_file_def)
  have b: "(0::nat) < 1" "0 < i_size (small_file False [1, 2, 3, 4, 5])"
    and c: "\<not> grab_cache_page_fails env_ok 0"
    by (simp_all add: small_file_def env_ok_def)
  from read2_plain_file_faults [OF a b c] b c show ?thesis
    by blast
qed

lemma write_step_encrypted_ok:
  assumes "ECRYPTFS_ENCRYPTED s" and "\<not> fatal_signal_pending e pos"
    and "get_locked_page_err e pos = None" and "encrypt_page_rc e pos = 0"
  shows "\<exists>d' s1. ecryptfs_write_step e data offset sz pos d s
                    = Inr (Next (pos + step_bytes offset sz pos) d' s1)
                 \<and> ECRYPTFS_ENCRYPTED s1"
  using assms
  by (simp add: write_step_factored ecryptfs_get_locked_page_def ecryptfs_encrypt_page_def
        acquired_def [symmetric] put_page_def)

lemma write_loop_encrypted_ok:
  assumes "ECRYPTFS_ENCRYPTED s" and "\<forall>pos. \<not> fatal_signal_pending e pos"
    and "\<forall>pos. get_locked_page_err e pos = None" and "\<forall>pos. encrypt_page_rc e pos = 0"
  shows "\<exists>pos' s'. ecryptfs_write_loop e data offset sz pos d rc0 s
           = Inr (Fallthrough, (if pos < offset + sz then 0 else rc0), pos', s')
         \<and> ECRYPTFS_ENCRYPTED s'"
  using assms
proof (induction e data offset sz pos d rc0 s rule: ecryptfs_write_loop.induct)
  case (1 e data offset sz pos d rc0 s)
  show ?case
  proof (cases "pos < offset + sz")
    case False
    with "1.prems" show ?thesis
      by (simp add: ecryptfs_write_loop.simps)
  next
    case True
    from "1.prems" have ok: "\<not> fatal_signal_pending e pos"
      "get_locked_page_err e pos = None" "encrypt_page_rc e pos = 0"
      by simp_all
    from write_step_encrypted_ok [OF "1.prems"(1) ok, of data offset sz d]
    obtain d' s1 where st: "ecryptfs_write_step e data offset sz pos d s
          = Inr (Next (pos + step_bytes offset sz pos) d' s1)"
      and enc1: "ECRYPTFS_ENCRYPTED s1"
      by blast
    from "1.IH" [OF True st refl enc1 "1.prems"(2,3,4)]
    obtain pos' s' where rec: "ecryptfs_write_loop e data offset sz
          (pos + step_bytes offset sz pos) d' 0 s1
          = Inr (Fallthrough, (if pos + step_bytes offset sz pos < offset + sz then 0 else 0),
                 pos', s')"
      and enc': "ECRYPTFS_ENCRYPTED s'"
      by blast
    from True st rec have "ecryptfs_write_loop e data offset sz pos d rc0 s
        = Inr (Fallthrough, 0, pos', s')"
      by (simp add: ecryptfs_write_loop.simps [of _ _ _ _ pos])
    with True enc' show ?thesis by simp
  qed
qed

text \<open>On an encrypted file, with no signal pending and every collaborator succeeding, the
  sequential write returns 0 for every offset and length.\<close>

theorem write_encrypted_succeeds:
  assumes enc: "ECRYPTFS_ENCRYPTED s"
    and quiet: "\<forall>pos. \<not> fatal_signal_pending e pos"
    and pages: "\<forall>pos. get_locked_page_err e pos = None"
    and crypt: "\<forall>pos. encrypt_page_rc e pos = 0"
    and meta: "size_to_metadata_rc e = 0"
  shows "write_rc (ecryptfs_write e s data offset sz) = Some 0"
proof -
  let ?pos = "if i_size s < offset then i_size s else offset"
  from write_loop_encrypted_ok [OF enc quiet pages crypt, of data offset sz ?pos 0 0]
  obtain pos' s' where "ecryptfs_write_loop e data offset sz ?pos 0 0 s
      = Inr (Fallthrough, 0, pos', s')"
    by auto
  with meta show ?thesis
    by (simp add: ecryptfs_write_def write_rc_def Let_def)
qed

text \<open>The theorem at an empty file, 5000 bytes written at offset 10000.\<close>

theorem write_encrypted_succeeds_witness:
  "ECRYPTFS_ENCRYPTED (small_file True [])
   \<and> (\<forall>pos. \<not> fatal_signal_pending env_ok pos)
   \<and> (\<forall>pos. get_locked_page_err env_ok pos = None)
   \<and> (\<forall>pos. encrypt_page_rc env_ok pos = 0)
   \<and> size_to_metadata_rc env_ok = 0
   \<and> write_rc (ecryptfs_write env_ok (small_file True []) x_buf 10000 5000) = Some 0"
proof -
  have enc: "ECRYPTFS_ENCRYPTED (small_file True [])"
    and quiet: "\<forall>pos. \<not> fatal_signal_pending env_ok pos"
    and pages: "\<forall>pos. get_locked_page_err env_ok pos = None"
    and crypt: "\<forall>pos. encrypt_page_rc env_ok pos = 0"
    and meta: "size_to_metadata_rc env_ok = 0"
    by (simp_all add: small_file_def env_ok_def)
  from write_encrypted_succeeds [OF enc quiet pages crypt meta] enc quiet pages crypt meta
  show ?thesis by blast
qed

text \<open>What a step of the sequential write persists on a plaintext file: starting at the
  lower offset \<open>pos\<close>, the first \<open>d'\<close> bytes of the page counted from the start of the
  page, where \<open>d'\<close> is the running total of data bytes copied so far, this step included.\<close>

theorem write_plain_step_persists:
  assumes plain: "\<not> ECRYPTFS_ENCRYPTED s"
    and st: "ecryptfs_write_step e data offset sz pos d s = Inr (Next pos' d' s1)"
  shows "d' = (if offset \<le> pos then d + step_bytes offset sz pos else d)
         \<and> lower_bytes s1
             = (\<lambda>p. if pos \<le> p \<and> p < pos + d'
                     then contents (i_mapping s1 (drop_bit PAGE_SHIFT pos)) (p - pos)
                     else lower_bytes s p)"
proof -
  let ?idx = "drop_bit PAGE_SHIFT pos"
  let ?t = "step_page (acquired s ?idx) data offset sz pos d"
  note nx = write_step_next(3) [OF st plain]
  have c: "contents (i_mapping s1 ?idx) = contents (i_mapping ?t ?idx)"
    by (simp add: nx put_page_def)
  have d': "d' = (if offset \<le> pos then d + step_bytes offset sz pos else d)"
    using st
    by (auto simp: write_step_factored ecryptfs_get_locked_page_def
        split: if_splits option.splits sum.splits prod.splits)
  have "lower_bytes s1 = (\<lambda>p. if pos \<le> p \<and> p < pos + d'
                     then contents (i_mapping ?t ?idx) (p - pos) else lower_bytes s p)"
    by (subst nx) (simp add: put_page_def)
  then have "lower_bytes s1 = (\<lambda>p. if pos \<le> p \<and> p < pos + d'
                     then contents (i_mapping s1 ?idx) (p - pos) else lower_bytes s p)"
    by (simp only: c)
  with d' show ?thesis by (rule conjI)
qed

end
